theory Spec2Isabelle
  imports Complex_Main "HOL-Library.Word" "HOL-Library.AList"
begin

section \<open>The SNMP responder of the internet connection monitor\<close>

text \<open>
  A shallow embedding of \<^verbatim>\<open>internal/outputs/snmp.go\<close>: the statistics store
  (\<^verbatim>\<open>Write\<close>), the snapshot builder (\<^verbatim>\<open>buildOIDSnapshot\<close>), the address
  comparison (\<^verbatim>\<open>compareOIDs\<close>, \<^verbatim>\<open>nextOID\<close>, \<^verbatim>\<open>normalizeOID\<close>) and the
  dispatcher (\<^verbatim>\<open>handleGet\<close>, \<^verbatim>\<open>handleGetNext\<close>, \<^verbatim>\<open>handleGetBulk\<close>,
  \<^verbatim>\<open>handleRequest\<close>).

  Go strings are byte strings: \<^typ>\<open>string\<close>. Go's \<^verbatim>\<open>int\<close> is taken at 64 bits
  (the platforms the monitor is built for), \<^verbatim>\<open>int64\<close> is \<^typ>\<open>64 word\<close> read with
  \<^const>\<open>sint\<close>, \<^verbatim>\<open>uint32\<close> is \<^typ>\<open>32 word\<close>. A Go map is an association list,
  read with \<^const>\<open>map_of\<close> and written with \<^const>\<open>AList.update\<close>, which keeps the keys
  distinct; the order of the list stands for one of the iteration orders Go may choose.
\<close>

subsection \<open>The functions of Go's standard library that the code calls\<close>

text \<open>
  \<^verbatim>\<open>strings.TrimSpace\<close> on ASCII input: the six ASCII white space bytes are stripped at
  both ends. (The library also strips the multi-byte encodings of Unicode white space; an
  address is ASCII.)
\<close>

definition asciiSpace :: "char \<Rightarrow> bool" where
  "asciiSpace c = (c = CHR 0x09 \<or> c = CHR 0x0A \<or> c = CHR 0x0B \<or> c = CHR 0x0C
     \<or> c = CHR 0x0D \<or> c = CHR '' '')"

definition strings_TrimSpace :: "string \<Rightarrow> string" where
  "strings_TrimSpace s = rev (dropWhile asciiSpace (rev (dropWhile asciiSpace s)))"

definition strings_HasPrefix :: "string \<Rightarrow> string \<Rightarrow> bool" where
  "strings_HasPrefix s p = (take (length p) s = p)"

definition strings_HasSuffix :: "string \<Rightarrow> string \<Rightarrow> bool" where
  "strings_HasSuffix s p = (length p \<le> length s \<and> drop (length s - length p) s = p)"

definition strings_TrimPrefix :: "string \<Rightarrow> string \<Rightarrow> string" where
  "strings_TrimPrefix s p = (if strings_HasPrefix s p then drop (length p) s else s)"

text \<open>\<^verbatim>\<open>strings.Split(s, sep)\<close> for a one-byte separator: never empty, \<^verbatim>\<open>[""]\<close> on
  the empty string.\<close>

fun strings_Split :: "string \<Rightarrow> char \<Rightarrow> string list" where
  "strings_Split [] sep = [[]]"
| "strings_Split (c # cs) sep =
     (if c = sep then [] # strings_Split cs sep
      else (case strings_Split cs sep of
              [] \<Rightarrow> [[c]]
            | p # ps \<Rightarrow> (c # p) # ps))"

text \<open>
  \<^verbatim>\<open>strconv.Atoi\<close>: an optional sign, then one or more decimal digits, and the value must
  fit a 64-bit \<^verbatim>\<open>int\<close>; anything else is an error (\<open>None\<close>).
\<close>

definition digit_of :: "char \<Rightarrow> nat option" where
  "digit_of ch =
     (let v = (of_char ch :: nat)
      in if 48 \<le> v \<and> v \<le> 57 then Some (v - 48) else None)"

fun parse_digits :: "string \<Rightarrow> nat \<Rightarrow> nat option" where
  "parse_digits [] n = Some n"
| "parse_digits (c # cs) n =
     (case digit_of c of None \<Rightarrow> None | Some d \<Rightarrow> parse_digits cs (n * 10 + d))"

definition strconv_Atoi :: "string \<Rightarrow> int option" where
  "strconv_Atoi s =
     (case s of
        [] \<Rightarrow> None
      | c # cs \<Rightarrow>
          (let neg = (c = CHR ''-'');
               ds = (if c = CHR ''-'' \<or> c = CHR ''+'' then cs else s)
           in if ds = [] then None
              else (case parse_digits ds 0 of
                      None \<Rightarrow> None
                    | Some n \<Rightarrow>
                        (let v = (if neg then - int n else int n)
                         in if - (2 ^ 63) \<le> v \<and> v < 2 ^ 63 then Some v else None))))"

text \<open>The verb \<^verbatim>\<open>%d\<close> of \<^verbatim>\<open>fmt.Sprintf\<close>: decimal, a minus sign for a negative value.\<close>

definition digit_char :: "nat \<Rightarrow> char" where
  "digit_char d = ''0123456789'' ! d"

function nat_digits :: "nat \<Rightarrow> string" where
  "nat_digits n = (if n < 10 then [digit_char n] else nat_digits (n div 10) @ [digit_char (n mod 10)])"
  by pat_completeness auto
termination
  by (relation "measure (\<lambda>n. n)") auto

declare nat_digits.simps [simp del]

definition fmt_d :: "int \<Rightarrow> string" where
  "fmt_d i = (if i < 0 then CHR ''-'' # nat_digits (nat (- i)) else nat_digits (nat i))"

subsection \<open>Addresses\<close>

function strip_trailing_dots :: "string \<Rightarrow> string" where
  "strip_trailing_dots trimmed =
     (if strings_HasSuffix trimmed ''.'' \<and> length trimmed > 1
      then strip_trailing_dots (take (length trimmed - 1) trimmed)
      else trimmed)"
  by pat_completeness auto
termination
  by (relation "measure length") auto

declare strip_trailing_dots.simps [simp del]

definition normalizeOID :: "string \<Rightarrow> string" where
  "normalizeOID oid =
     (let trimmed = strings_TrimSpace oid
      in if trimmed = [] then ''.''
         else strip_trailing_dots
                (if \<not> strings_HasPrefix trimmed ''.'' then ''.'' @ trimmed else trimmed))"

text \<open>A component that \<^verbatim>\<open>Atoi\<close> rejects counts as 0, as does a missing one.\<close>

definition atoi0 :: "string \<Rightarrow> int" where
  "atoi0 p = (case strconv_Atoi p of None \<Rightarrow> 0 | Some v \<Rightarrow> v)"

text \<open>
  The loop of \<^verbatim>\<open>compareOIDs\<close> over \<open>i < maxLen\<close>, as a recursion over the two lists
  of components: \<open>ai\<close> and \<open>bi\<close> are 0 past the end of their list. The result is the
  value the loop returns, or 0 when it runs to its end.
\<close>

fun compare_parts :: "string list \<Rightarrow> string list \<Rightarrow> int" where
  "compare_parts [] [] = 0"
| "compare_parts (a # ap) [] =
     (let ai = atoi0 a; bi = 0
      in if ai < bi then - 1 else if ai > bi then 1 else compare_parts ap [])"
| "compare_parts [] (b # bp) =
     (let ai = 0; bi = atoi0 b
      in if ai < bi then - 1 else if ai > bi then 1 else compare_parts [] bp)"
| "compare_parts (a # ap) (b # bp) =
     (let ai = atoi0 a; bi = atoi0 b
      in if ai < bi then - 1 else if ai > bi then 1 else compare_parts ap bp)"

definition compareOIDs :: "string \<Rightarrow> string \<Rightarrow> int" where
  "compareOIDs a b =
     (if a = b then 0
      else
        (let ap = strings_Split (strings_TrimPrefix a ''.'') (CHR ''.'');
             bp = strings_Split (strings_TrimPrefix b ''.'') (CHR ''.'');
             r = compare_parts ap bp
         in if r \<noteq> 0 then r
            else if length ap < length bp then - 1
            else if length ap > length bp then 1
            else 0))"

fun nextOID :: "string list \<Rightarrow> string \<Rightarrow> string option" where
  "nextOID [] current = None"
| "nextOID (oid # rest) current =
     (if compareOIDs oid current > 0 then Some oid else nextOID rest current)"

subsection \<open>Reply variables\<close>

text \<open>
  \<^verbatim>\<open>gosnmp.SnmpPDU\<close> with the types the agent uses. \<open>UnknownType\<close> is the zero value
  of \<^verbatim>\<open>gosnmp.Asn1BER\<close>, and \<open>zero_pdu\<close> the zero value of the struct: what a Go
  map returns for a key it does not hold.
\<close>

datatype Asn1BER = UnknownType | Integer | OctetString | Counter32 | Gauge32 | TimeTicks
  | NoSuchObject | EndOfMibView

datatype pdu_value = NilValue | Uint32Value "32 word" | BytesValue string

record SnmpPDU =
  Name :: string
  Type :: Asn1BER
  Value :: pdu_value

definition zero_pdu :: SnmpPDU where
  "zero_pdu = \<lparr>Name = [], Type = UnknownType, Value = NilValue\<rparr>"

definition gaugePDU :: "string \<Rightarrow> 32 word \<Rightarrow> SnmpPDU" where
  "gaugePDU oid v = \<lparr>Name = oid, Type = Gauge32, Value = Uint32Value v\<rparr>"

definition counterPDU :: "string \<Rightarrow> 32 word \<Rightarrow> SnmpPDU" where
  "counterPDU oid v = \<lparr>Name = oid, Type = Counter32, Value = Uint32Value v\<rparr>"

definition timeTicksPDU :: "string \<Rightarrow> 32 word \<Rightarrow> SnmpPDU" where
  "timeTicksPDU oid v = \<lparr>Name = oid, Type = TimeTicks, Value = Uint32Value (v * 100)\<rparr>"

definition octetStringPDU :: "string \<Rightarrow> string \<Rightarrow> SnmpPDU" where
  "octetStringPDU oid v = \<lparr>Name = oid, Type = OctetString, Value = BytesValue v\<rparr>"

text \<open>\<^verbatim>\<open>valueMap[k]\<close> read without the \<^verbatim>\<open>ok\<close> flag.\<close>

definition map_index :: "(string \<times> SnmpPDU) list \<Rightarrow> string \<Rightarrow> SnmpPDU" where
  "map_index valueMap k = (case map_of valueMap k of None \<Rightarrow> zero_pdu | Some v \<Rightarrow> v)"

subsection \<open>The dispatcher\<close>

fun handleGet :: "SnmpPDU list \<Rightarrow> (string \<times> SnmpPDU) list \<Rightarrow> SnmpPDU list" where
  "handleGet [] valueMap = []"
| "handleGet (vb # vars) valueMap =
     (let oid = normalizeOID (Name vb)
      in (case map_of valueMap oid of
            Some val \<Rightarrow> val
          | None \<Rightarrow> \<lparr>Name = oid, Type = NoSuchObject, Value = NilValue\<rparr>)
         # handleGet vars valueMap)"

fun handleGetNext ::
  "SnmpPDU list \<Rightarrow> (string \<times> SnmpPDU) list \<Rightarrow> string list \<Rightarrow> SnmpPDU list" where
  "handleGetNext [] valueMap sortedOIDs = []"
| "handleGetNext (vb # vars) valueMap sortedOIDs =
     (let oid = normalizeOID (Name vb)
      in (case nextOID sortedOIDs oid of
            None \<Rightarrow> \<lparr>Name = oid, Type = EndOfMibView, Value = NilValue\<rparr>
          | Some nxt \<Rightarrow> map_index valueMap nxt)
         # handleGetNext vars valueMap sortedOIDs)"

text \<open>
  The inner loop of \<^verbatim>\<open>handleGetBulk\<close>: \<open>n\<close> is the number of repetitions left
  (\<open>maxRepetitions - r\<close>), \<open>current\<close> the cursor.
\<close>

fun bulk_walk :: "nat \<Rightarrow> string \<Rightarrow> (string \<times> SnmpPDU) list \<Rightarrow> string list \<Rightarrow> SnmpPDU list" where
  "bulk_walk 0 current valueMap sortedOIDs = []"
| "bulk_walk (Suc n) current valueMap sortedOIDs =
     (case nextOID sortedOIDs current of
        None \<Rightarrow> [\<lparr>Name = current, Type = EndOfMibView, Value = NilValue\<rparr>]
      | Some nxt \<Rightarrow>
          (let val = map_index valueMap nxt
           in val # bulk_walk n (Name val) valueMap sortedOIDs))"

text \<open>The packet fields the handlers read or write.\<close>

datatype SnmpVersion = Version1 | Version2c | Version3

datatype PDUType = GetRequest | GetNextRequest | GetResponse | SetRequest | Trap
  | GetBulkRequest | InformRequest | SNMPv2Trap | Report

datatype SNMPError = NoError | TooBig | NoSuchName | BadValue | ReadOnly | GenErr

record SnmpPacket =
  Version :: SnmpVersion
  Community :: string
  PDUType :: PDUType
  RequestID :: "32 word"
  MsgID :: "32 word"
  NonRepeaters :: "8 word"
  MaxRepetitions :: "32 word"
  Error :: SNMPError
  Variables :: "SnmpPDU list"

text \<open>
  The two loops of \<^verbatim>\<open>handleGetBulk\<close>, over \<open>vars[0 .. nonRepeaters)\<close> and over
  \<open>vars[nonRepeaters .. len(vars))\<close>.
\<close>

fun bulk_non_repeaters ::
  "SnmpPDU list \<Rightarrow> (string \<times> SnmpPDU) list \<Rightarrow> string list \<Rightarrow> SnmpPDU list" where
  "bulk_non_repeaters [] valueMap sortedOIDs = []"
| "bulk_non_repeaters (vb # vars) valueMap sortedOIDs =
     (let oid = normalizeOID (Name vb)
      in (case nextOID sortedOIDs oid of
            None \<Rightarrow> \<lparr>Name = oid, Type = EndOfMibView, Value = NilValue\<rparr>
          | Some nxt \<Rightarrow> map_index valueMap nxt)
         # bulk_non_repeaters vars valueMap sortedOIDs)"

fun bulk_repeaters ::
  "nat \<Rightarrow> SnmpPDU list \<Rightarrow> (string \<times> SnmpPDU) list \<Rightarrow> string list \<Rightarrow> SnmpPDU list" where
  "bulk_repeaters maxRepetitions [] valueMap sortedOIDs = []"
| "bulk_repeaters maxRepetitions (vb # vars) valueMap sortedOIDs =
     (let oid = normalizeOID (Name vb);
          current = oid
      in bulk_walk maxRepetitions current valueMap sortedOIDs
         @ bulk_repeaters maxRepetitions vars valueMap sortedOIDs)"

text \<open>
  \<^verbatim>\<open>make([]gosnmp.SnmpPDU, 0, n)\<close> in Go's 64-bit runtime. An element takes 40 bytes (the
  interface value, the string header, and the type byte padded to a word), and the runtime
  panics with \<^verbatim>\<open>makeslice: cap out of range\<close> when \<open>n\<close> is negative or \<open>40 * n\<close>
  exceeds its limit of \<open>2 ^ 48\<close> bytes. Below the limit the slice exists only if the
  memory does: \<open>mem n\<close> says whether the system gives the memory of \<open>n\<close> elements,
  and the process dies when it does not. The memory of the system is outside the code, so
  \<open>mem\<close> is a parameter of the model.
\<close>

datatype fault = CapOutOfRange | OutOfMemory

definition makeslice :: "(nat \<Rightarrow> bool) \<Rightarrow> int \<Rightarrow> fault option" where
  "makeslice mem n =
     (if n < 0 \<or> 2 ^ 48 < n * 40 then Some CapOutOfRange
      else if \<not> mem (nat n) then Some OutOfMemory
      else None)"

text \<open>
  \<^verbatim>\<open>handleGetBulk\<close>. The capacity \<^verbatim>\<open>len(vars)*maxRepetitions\<close> is a product of
  \<^verbatim>\<open>int\<close>s and wraps around at 64 bits. \<open>Inl\<close> is the fault the handler dies of
  before any reply: that of the allocation of \<^verbatim>\<open>results\<close>, or that of an
  \<^verbatim>\<open>append\<close> past the capacity, which allocates again.
\<close>

definition handleGetBulk ::
  "(nat \<Rightarrow> bool) \<Rightarrow> SnmpPacket \<Rightarrow> (string \<times> SnmpPDU) list \<Rightarrow> string list \<Rightarrow>
   fault + SnmpPDU list" where
  "handleGetBulk mem packet valueMap sortedOIDs =
     (let vars = Variables packet;
          nonRepeaters = (if unat (NonRepeaters packet) > length vars then length vars
                          else unat (NonRepeaters packet));
          maxRepetitions = (if unat (MaxRepetitions packet) \<le> 0 then 1
                            else unat (MaxRepetitions packet));
          capacity = sint (word_of_nat (length vars) * word_of_nat maxRepetitions :: 64 word)
      in case makeslice mem capacity of
           Some f \<Rightarrow> Inl f
         | None \<Rightarrow>
             (let results =
                    bulk_non_repeaters (take nonRepeaters vars) valueMap sortedOIDs
                    @ bulk_repeaters maxRepetitions (drop nonRepeaters vars) valueMap sortedOIDs
              in if capacity < int (length results) \<and> \<not> mem (length results)
                 then Inl OutOfMemory
                 else Inr results))"

subsection \<open>The statistics store\<close>

text \<open>
  \<^verbatim>\<open>time.Time\<close> as the seconds since the Unix epoch and the nanoseconds within the second.
  The zero value is January 1 of year 1, 00:00 UTC.
\<close>

record Time =
  unix_sec :: int
  nsec :: nat

definition zero_Time :: Time where
  "zero_Time = \<lparr>unix_sec = - 62135596800, nsec = 0\<rparr>"

definition IsZero :: "Time \<Rightarrow> bool" where
  "IsZero t = (unix_sec t = - 62135596800 \<and> nsec t = 0)"

definition Unix :: "Time \<Rightarrow> 64 word" where
  "Unix t = word_of_int (unix_sec t)"

text \<open>
  \<^verbatim>\<open>models.TestResult\<close> with the fields \<^verbatim>\<open>Write\<close> reads (\<^verbatim>\<open>Site.Name\<close>,
  \<^verbatim>\<open>Site.URL\<close>, \<^verbatim>\<open>Status.Success\<close>, \<^verbatim>\<open>Timings.TotalDurationMs\<close>,
  \<^verbatim>\<open>Timestamp\<close>) and the test's identifier.
\<close>

record TestResult =
  Timestamp :: Time
  TestID :: string
  Site_Name :: string
  Site_URL :: string
  Status_Success :: bool
  Timings_TotalDurationMs :: "64 word"

text \<open>
  The arithmetic of \<^verbatim>\<open>float64\<close> is a parameter of the model: its operations are
  passed in, and nothing is assumed of them.
\<close>

record 'f float64_ops =
  f_zero :: 'f
  f_of_int64 :: "64 word \<Rightarrow> 'f"
  f_mul :: "'f \<Rightarrow> 'f \<Rightarrow> 'f"
  f_add :: "'f \<Rightarrow> 'f \<Rightarrow> 'f"
  f_div :: "'f \<Rightarrow> 'f \<Rightarrow> 'f"
  math_Round :: "'f \<Rightarrow> 'f"
  f_to_uint32 :: "'f \<Rightarrow> 32 word"

record 'f siteStats =
  TotalTests :: "64 word"
  SuccessfulTests :: "64 word"
  FailedTests :: "64 word"
  LastSuccessTime :: Time
  LastFailureTime :: Time
  LastDurationMs :: "64 word"
  AvgDurationMs :: 'f
  MaxDurationMs :: "64 word"
  MinDurationMs :: "64 word"

record SNMPConfig =
  Enabled :: bool
  cfg_Community :: string
  EnterpriseOID :: string

record 'f SNMPOutput =
  config :: SNMPConfig
  cache :: "TestResult list"
  maxSize :: int
  stats :: "(string \<times> 'f siteStats) list"
  siteIndex :: "(string \<times> 64 word) list"
  nextSiteIndex :: "64 word"

text \<open>
  \<^verbatim>\<open>NewSNMPOutput\<close>: \<open>None\<close> is the \<^verbatim>\<open>nil\<close> it returns for a disabled agent. The
  listener it starts belongs to the transport and is not part of the store.
\<close>

definition NewSNMPOutput :: "SNMPConfig \<Rightarrow> 'f SNMPOutput option" where
  "NewSNMPOutput cfg =
     (if \<not> Enabled cfg then None
      else Some \<lparr>config = cfg, cache = [], maxSize = 100, stats = [], siteIndex = [],
                 nextSiteIndex = 0\<rparr>)"

text \<open>The struct literal \<^verbatim>\<open>&siteStats{MinDurationMs: d, MaxDurationMs: d}\<close>.\<close>

definition new_siteStats :: "'f float64_ops \<Rightarrow> 64 word \<Rightarrow> 'f siteStats" where
  "new_siteStats F d =
     \<lparr>TotalTests = 0, SuccessfulTests = 0, FailedTests = 0, LastSuccessTime = zero_Time,
      LastFailureTime = zero_Time, LastDurationMs = 0, AvgDurationMs = f_zero F,
      MaxDurationMs = d, MinDurationMs = d\<rparr>"

text \<open>The statements of \<^verbatim>\<open>Write\<close> on \<^verbatim>\<open>st\<close>, from \<^verbatim>\<open>st.TotalTests++\<close> on.\<close>

definition update_stats :: "'f float64_ops \<Rightarrow> TestResult \<Rightarrow> 'f siteStats \<Rightarrow> 'f siteStats" where
  "update_stats F result st0 =
     (let d = Timings_TotalDurationMs result;
          st1 = st0\<lparr>TotalTests := TotalTests st0 + 1, LastDurationMs := d\<rparr>;
          st2 = (if Status_Success result
                 then st1\<lparr>SuccessfulTests := SuccessfulTests st1 + 1,
                          LastSuccessTime := Timestamp result\<rparr>
                 else st1\<lparr>FailedTests := FailedTests st1 + 1,
                          LastFailureTime := Timestamp result\<rparr>);
          st3 = (if sint d < sint (MinDurationMs st2) then st2\<lparr>MinDurationMs := d\<rparr> else st2);
          st4 = (if sint d > sint (MaxDurationMs st3) then st3\<lparr>MaxDurationMs := d\<rparr> else st3)
      in st4\<lparr>AvgDurationMs :=
               f_div F
                 (f_add F (f_mul F (AvgDurationMs st4) (f_of_int64 F (TotalTests st4 - 1)))
                          (f_of_int64 F d))
                 (f_of_int64 F (TotalTests st4))\<rparr>)"

text \<open>
  \<^verbatim>\<open>Write\<close> on a receiver that is not \<^verbatim>\<open>nil\<close>. \<open>None\<close> is the panic of
  \<^verbatim>\<open>s.cache[1:]\<close> on an empty slice; the error the function returns is always
  \<^verbatim>\<open>nil\<close>. The struct behind the pointer \<^verbatim>\<open>s.stats[siteName]\<close> is updated and stored
  back under its key.
\<close>

definition Write :: "'f float64_ops \<Rightarrow> 'f SNMPOutput \<Rightarrow> TestResult \<Rightarrow> 'f SNMPOutput option" where
  "Write F s result =
     (if int (length (cache s)) \<ge> maxSize s \<and> cache s = [] then None
      else
        (let cache1 = (if int (length (cache s)) \<ge> maxSize s then drop 1 (cache s) else cache s);
             cache2 = cache1 @ [result];
             siteName = (if Site_Name result = [] then Site_URL result else Site_Name result);
             fresh = (map_of (stats s) siteName = None);
             st0 = (case map_of (stats s) siteName of
                      None \<Rightarrow> new_siteStats F (Timings_TotalDurationMs result)
                    | Some st \<Rightarrow> st);
             assign = (fresh \<and> map_of (siteIndex s) siteName = None);
             nextSiteIndex1 = (if assign then nextSiteIndex s + 1 else nextSiteIndex s);
             siteIndex1 = (if assign then AList.update siteName nextSiteIndex1 (siteIndex s)
                           else siteIndex s)
         in Some (s\<lparr>cache := cache2,
                    stats := AList.update siteName (update_stats F result st0) (stats s),
                    siteIndex := siteIndex1,
                    nextSiteIndex := nextSiteIndex1\<rparr>)))"

text \<open>A sequence of calls of \<^verbatim>\<open>Write\<close>, stopping at a panic.\<close>

fun Writes :: "'f float64_ops \<Rightarrow> 'f SNMPOutput \<Rightarrow> TestResult list \<Rightarrow> 'f SNMPOutput option" where
  "Writes F s [] = Some s"
| "Writes F s (r # rs) = (case Write F s r of None \<Rightarrow> None | Some s' \<Rightarrow> Writes F s' rs)"

subsection \<open>The snapshot builder\<close>

text \<open>
  \<^verbatim>\<open>sort.Slice\<close> as an insertion sort under the same \<open>less\<close> function, here \<open>lt\<close>. Where it is a
  strict total order on the elements, as it is for the entries and for the addresses of a
  snapshot, there is one sorted arrangement and every sorting algorithm returns it.
\<close>

fun insert_by :: "('a \<Rightarrow> 'a \<Rightarrow> bool) \<Rightarrow> 'a \<Rightarrow> 'a list \<Rightarrow> 'a list" where
  "insert_by lt x [] = [x]"
| "insert_by lt x (y # ys) = (if lt y x then y # insert_by lt x ys else x # y # ys)"

definition sort_Slice :: "('a \<Rightarrow> 'a \<Rightarrow> bool) \<Rightarrow> 'a list \<Rightarrow> 'a list" where
  "sort_Slice lt xs = foldr (insert_by lt) xs []"

text \<open>Go's \<^verbatim>\<open><\<close> on strings: bytewise lexicographic.\<close>

fun string_less :: "string \<Rightarrow> string \<Rightarrow> bool" where
  "string_less [] [] = False"
| "string_less [] (b # bs) = True"
| "string_less (a # as) [] = False"
| "string_less (a # as) (b # bs) =
     ((of_char a :: nat) < of_char b \<or> (a = b \<and> string_less as bs))"

record 'f siteEntry =
  entry_name :: string
  entry_index :: "64 word"
  entry_stats :: "'f siteStats"

definition entry_less :: "'f siteEntry \<Rightarrow> 'f siteEntry \<Rightarrow> bool" where
  "entry_less ei ej =
     (if entry_index ei = entry_index ej then string_less (entry_name ei) (entry_name ej)
      else sint (entry_index ei) < sint (entry_index ej))"

text \<open>The loop over \<^verbatim>\<open>s.stats\<close> that collects the entries.\<close>

fun collect_entries ::
  "(string \<times> 'f siteStats) list \<Rightarrow> (string \<times> 64 word) list \<Rightarrow> 'f siteEntry list" where
  "collect_entries [] si = []"
| "collect_entries ((name, st) # rest) si =
     (case map_of si name of
        None \<Rightarrow> collect_entries rest si
      | Some idx \<Rightarrow>
          \<lparr>entry_name = name, entry_index = idx, entry_stats = st\<rparr> # collect_entries rest si)"

text \<open>The body of the loop over the entries: the ten leaves of one site.\<close>

definition site_leaves ::
  "'f float64_ops \<Rightarrow> string \<Rightarrow> 'f siteEntry \<Rightarrow> (string \<times> SnmpPDU) list \<Rightarrow> (string \<times> SnmpPDU) list" where
  "site_leaves F siteBase entry values0 =
     (let prefix = siteBase @ ''.'' @ fmt_d (sint (entry_index entry));
          st = entry_stats entry;
          values1 = AList.update (prefix @ ''.1'')
                      (octetStringPDU (prefix @ ''.1'') (entry_name entry)) values0;
          values2 = AList.update (prefix @ ''.2'')
                      (counterPDU (prefix @ ''.2'') (ucast (TotalTests st))) values1;
          values3 = AList.update (prefix @ ''.3'')
                      (counterPDU (prefix @ ''.3'') (ucast (SuccessfulTests st))) values2;
          values4 = AList.update (prefix @ ''.4'')
                      (counterPDU (prefix @ ''.4'') (ucast (FailedTests st))) values3;
          values5 = AList.update (prefix @ ''.5'')
                      (if \<not> IsZero (LastSuccessTime st)
                       then gaugePDU (prefix @ ''.5'') (ucast (Unix (LastSuccessTime st)))
                       else gaugePDU (prefix @ ''.5'') 0) values4;
          values6 = AList.update (prefix @ ''.6'')
                      (if \<not> IsZero (LastFailureTime st)
                       then gaugePDU (prefix @ ''.6'') (ucast (Unix (LastFailureTime st)))
                       else gaugePDU (prefix @ ''.6'') 0) values5;
          values7 = AList.update (prefix @ ''.7'')
                      (gaugePDU (prefix @ ''.7'') (ucast (LastDurationMs st))) values6;
          values8 = AList.update (prefix @ ''.8'')
                      (gaugePDU (prefix @ ''.8'')
                         (f_to_uint32 F (math_Round F (AvgDurationMs st)))) values7;
          values9 = AList.update (prefix @ ''.9'')
                      (gaugePDU (prefix @ ''.9'') (ucast (MaxDurationMs st))) values8
      in AList.update (prefix @ ''.10'')
           (gaugePDU (prefix @ ''.10'') (ucast (MinDurationMs st))) values9)"

text \<open>
  \<^verbatim>\<open>buildOIDSnapshot\<close>. The clock is outside the store: \<open>uptime\<close> is the value of
  \<^verbatim>\<open>uint32(time.Since(s.startTime).Seconds())\<close> at the call.
\<close>

definition snapshot_base :: "'f SNMPOutput \<Rightarrow> string" where
  "snapshot_base s =
     (let base = normalizeOID (EnterpriseOID (config s))
      in if base = ''.'' then ''.1.3.6.1.4.1.99999'' else base)"

definition snapshot_values ::
  "'f float64_ops \<Rightarrow> 32 word \<Rightarrow> 'f SNMPOutput \<Rightarrow> (string \<times> SnmpPDU) list" where
  "snapshot_values F uptime s =
     (let base = snapshot_base s;
          cacheSize = (word_of_nat (length (cache s)) :: 32 word);
          maxSize32 = (word_of_int (maxSize s) :: 32 word);
          siteCount = (word_of_nat (length (siteIndex s)) :: 32 word);
          values1 = AList.update (base @ ''.1.0'') (gaugePDU (base @ ''.1.0'') cacheSize) [];
          values2 = AList.update (base @ ''.2.0'') (gaugePDU (base @ ''.2.0'') maxSize32) values1;
          values3 = AList.update (base @ ''.3.0'') (gaugePDU (base @ ''.3.0'') siteCount) values2;
          values4 = AList.update (base @ ''.4.0'') (timeTicksPDU (base @ ''.4.0'') uptime) values3;
          entries = sort_Slice entry_less (collect_entries (stats s) (siteIndex s));
          siteBase = base @ ''.5''
      in fold (site_leaves F siteBase) entries values4)"

definition buildOIDSnapshot ::
  "'f float64_ops \<Rightarrow> 32 word \<Rightarrow> 'f SNMPOutput \<Rightarrow> string list \<times> (string \<times> SnmpPDU) list" where
  "buildOIDSnapshot F uptime s =
     (let values = snapshot_values F uptime s;
          oids = map fst values
      in (sort_Slice (\<lambda>a b. compareOIDs a b < 0) oids, values))"

subsection \<open>The request handler\<close>

text \<open>
  \<^verbatim>\<open>handleRequest\<close> from the decoded packet on: the argument is \<open>None\<close> when
  \<^verbatim>\<open>SnmpDecodePacket\<close> fails or returns \<^verbatim>\<open>nil\<close>. The result is \<open>None\<close> when the
  handler returns before building a response; otherwise it is \<open>Some (Inr response)\<close>
  with the response the handler builds and hands to \<^verbatim>\<open>MarshalMsg\<close> and the socket, or
  \<open>Some (Inl f)\<close> when it dies of the fault \<open>f\<close> while building it.
\<close>

definition handleRequest ::
  "'f float64_ops \<Rightarrow> (nat \<Rightarrow> bool) \<Rightarrow> 32 word \<Rightarrow> 'f SNMPOutput \<Rightarrow> SnmpPacket option \<Rightarrow>
   (fault + SnmpPacket) option" where
  "handleRequest F mem uptime s decoded =
     (case decoded of
        None \<Rightarrow> None
      | Some snmpPacket \<Rightarrow>
          if Version snmpPacket \<noteq> Version2c \<and> Version snmpPacket \<noteq> Version1 then None
          else if Community snmpPacket \<noteq> cfg_Community (config s) then None
          else
            (let (sortedOIDs, valueMap) = buildOIDSnapshot F uptime s;
                 response = \<lparr>Version = Version snmpPacket, Community = Community snmpPacket,
                             PDUType = GetResponse, RequestID = RequestID snmpPacket,
                             MsgID = MsgID snmpPacket, NonRepeaters = NonRepeaters snmpPacket,
                             MaxRepetitions = MaxRepetitions snmpPacket, Error = NoError,
                             Variables = []\<rparr>
             in Some
                  (case PDUType snmpPacket of
                     GetRequest \<Rightarrow>
                       Inr (response\<lparr>Variables := handleGet (Variables snmpPacket) valueMap\<rparr>)
                   | GetNextRequest \<Rightarrow>
                       Inr (response\<lparr>Variables :=
                              handleGetNext (Variables snmpPacket) valueMap sortedOIDs\<rparr>)
                   | GetBulkRequest \<Rightarrow>
                       (case handleGetBulk mem snmpPacket valueMap sortedOIDs of
                          Inl f \<Rightarrow> Inl f
                        | Inr vars \<Rightarrow> Inr (response\<lparr>Variables := vars\<rparr>))
                   | _ \<Rightarrow>
                       Inr (response\<lparr>Error := GenErr, Variables := Variables snmpPacket\<rparr>))))"

subsection \<open>Notions used in the statements and proofs\<close>

text \<open>
  The comparison of \<^verbatim>\<open>compareOIDs\<close> seen on the integers its components parse to:
  \<open>oid_key\<close> is the list of those integers, \<open>compare_ints\<close> the loop and
  \<open>compare_keys\<close> the loop followed by the comparison of the lengths.
\<close>

definition is_digit :: "char \<Rightarrow> bool" where
  "is_digit c = (digit_of c \<noteq> None)"

fun compare_ints :: "int list \<Rightarrow> int list \<Rightarrow> int" where
  "compare_ints [] [] = 0"
| "compare_ints (a # x) [] = (if a < 0 then - 1 else if a > 0 then 1 else compare_ints x [])"
| "compare_ints [] (b # y) = (if 0 < b then - 1 else if 0 > b then 1 else compare_ints [] y)"
| "compare_ints (a # x) (b # y) = (if a < b then - 1 else if a > b then 1 else compare_ints x y)"

definition compare_keys :: "int list \<Rightarrow> int list \<Rightarrow> int" where
  "compare_keys x y =
     (let r = compare_ints x y
      in if r \<noteq> 0 then r
         else if length x < length y then - 1
         else if length x > length y then 1
         else 0)"

definition oid_key :: "string \<Rightarrow> int list" where
  "oid_key a = map atoi0 (strings_Split (strings_TrimPrefix a ''.'') (CHR ''.''))"

text \<open>
  An address written from its components, \<open>dotted [1, 3, 6] = ''.1.3.6''\<close>, and the
  range of a 64-bit \<^verbatim>\<open>int\<close>.
\<close>

definition dotted :: "int list \<Rightarrow> string" where
  "dotted ns = concat (map (\<lambda>n. CHR ''.'' # fmt_d n) ns)"

definition int64_range :: "int \<Rightarrow> bool" where
  "int64_range n = (- (2 ^ 63) \<le> n \<and> n < 2 ^ 63)"

text \<open>The ten leaves the loop body binds for one entry, as a list.\<close>

definition leaf_list :: "'f float64_ops \<Rightarrow> string \<Rightarrow> 'f siteEntry \<Rightarrow> (string \<times> SnmpPDU) list" where
  "leaf_list F siteBase entry =
     (let p = siteBase @ ''.'' @ fmt_d (sint (entry_index entry));
          st = entry_stats entry
      in [(p @ ''.1'', octetStringPDU (p @ ''.1'') (entry_name entry)),
          (p @ ''.2'', counterPDU (p @ ''.2'') (ucast (TotalTests st))),
          (p @ ''.3'', counterPDU (p @ ''.3'') (ucast (SuccessfulTests st))),
          (p @ ''.4'', counterPDU (p @ ''.4'') (ucast (FailedTests st))),
          (p @ ''.5'', gaugePDU (p @ ''.5'')
             (if IsZero (LastSuccessTime st) then 0 else ucast (Unix (LastSuccessTime st)))),
          (p @ ''.6'', gaugePDU (p @ ''.6'')
             (if IsZero (LastFailureTime st) then 0 else ucast (Unix (LastFailureTime st)))),
          (p @ ''.7'', gaugePDU (p @ ''.7'') (ucast (LastDurationMs st))),
          (p @ ''.8'', gaugePDU (p @ ''.8'') (f_to_uint32 F (math_Round F (AvgDurationMs st)))),
          (p @ ''.9'', gaugePDU (p @ ''.9'') (ucast (MaxDurationMs st))),
          (p @ ''.10'', gaugePDU (p @ ''.10'') (ucast (MinDurationMs st)))])"

text \<open>
  The parts of \<^verbatim>\<open>buildOIDSnapshot\<close>: the sorted entries, the four scalars as a list, and
  the component lists of all the addresses of a snapshot.
\<close>

definition snapshot_entries :: "'f SNMPOutput \<Rightarrow> 'f siteEntry list" where
  "snapshot_entries s = sort_Slice entry_less (collect_entries (stats s) (siteIndex s))"

definition scalar_list :: "32 word \<Rightarrow> 'f SNMPOutput \<Rightarrow> (string \<times> SnmpPDU) list" where
  "scalar_list uptime s =
     (let base = snapshot_base s
      in [(base @ ''.1.0'', gaugePDU (base @ ''.1.0'') (word_of_nat (length (cache s)))),
          (base @ ''.2.0'', gaugePDU (base @ ''.2.0'') (word_of_int (maxSize s))),
          (base @ ''.3.0'', gaugePDU (base @ ''.3.0'') (word_of_nat (length (siteIndex s)))),
          (base @ ''.4.0'', timeTicksPDU (base @ ''.4.0'') uptime)])"

definition table_paths :: "'f SNMPOutput \<Rightarrow> int list list" where
  "table_paths s =
     [[1, 0], [2, 0], [3, 0], [4, 0]] @
     concat (map (\<lambda>e. map (\<lambda>j. [5, sint (entry_index e), j]) [1, 2, 3, 4, 5, 6, 7, 8, 9, 10])
                 (snapshot_entries s))"

text \<open>The addresses of a table that compare greater than \<open>cur\<close>, in the table's order.\<close>

definition greater_oids :: "string list \<Rightarrow> string \<Rightarrow> string list" where
  "greater_oids sortedOIDs cur = filter (\<lambda>u. compareOIDs u cur > 0) sortedOIDs"

text \<open>
  The site of a record: the key \<^verbatim>\<open>siteName\<close> that \<^verbatim>\<open>Write\<close> computes.
\<close>

definition site_key :: "TestResult \<Rightarrow> string" where
  "site_key r = (if Site_Name r = [] then Site_URL r else Site_Name r)"

text \<open>The distinct elements of a list in the order of their first occurrence.\<close>

fun first_seen :: "string list \<Rightarrow> string list \<Rightarrow> string list" where
  "first_seen acc [] = acc"
| "first_seen acc (k # ks) = first_seen (if k \<in> set acc then acc else acc @ [k]) ks"

text \<open>
  What \<^verbatim>\<open>Write\<close> preserves: the buffer is within its capacity of 100, the two maps have
  the same keys, and the \<open>n\<close> sites hold the indices 1 to \<open>n\<close> in the order they were
  added, \<open>n\<close> being the counter.
\<close>

definition store_inv :: "'f SNMPOutput \<Rightarrow> bool" where
  "store_inv s \<longleftrightarrow>
     maxSize s = 100 \<and> length (cache s) \<le> 100 \<and>
     map fst (stats s) = map fst (siteIndex s) \<and>
     distinct (map fst (siteIndex s)) \<and>
     map snd (siteIndex s) = map word_of_nat [1 ..< Suc (length (siteIndex s))] \<and>
     nextSiteIndex s = word_of_nat (length (siteIndex s))"

text \<open>
  The aggregate of one site after its records \<open>rs\<close>, from the aggregate \<open>cur\<close> it had
  (\<open>None\<close>: no record yet): the statements of \<^verbatim>\<open>Write\<close> on \<^verbatim>\<open>s.stats[siteName]\<close>, one
  record after the other.
\<close>

fun aggregate ::
  "'f float64_ops \<Rightarrow> 'f siteStats option \<Rightarrow> TestResult list \<Rightarrow> 'f siteStats option" where
  "aggregate F cur [] = cur"
| "aggregate F cur (r # rs) =
     aggregate F
       (Some (update_stats F r
                (case cur of None \<Rightarrow> new_siteStats F (Timings_TotalDurationMs r)
                 | Some st \<Rightarrow> st))) rs"



text \<open>The last components of the ten leaves of a site.\<close>

definition leaf_suffixes :: "string list" where
  "leaf_suffixes = [''.1'', ''.2'', ''.3'', ''.4'', ''.5'', ''.6'', ''.7'', ''.8'', ''.9'', ''.10'']"

subsection \<open>Concrete inputs\<close>

text \<open>
  An instance of the \<^verbatim>\<open>float64\<close> operations for running the model on concrete inputs:
  exact rational arithmetic, with \<^verbatim>\<open>math.Round\<close> rounding halves away from zero and the
  conversion to \<^verbatim>\<open>uint32\<close> truncating. It agrees with \<^verbatim>\<open>float64\<close> where every
  intermediate value is representable, as in the examples below.
\<close>

definition exact_ops :: "rat float64_ops" where
  "exact_ops =
     \<lparr>f_zero = 0, f_of_int64 = (\<lambda>w. of_int (sint w)), f_mul = (*), f_add = (+), f_div = (/),
      math_Round = (\<lambda>x. of_int (if x \<ge> 0 then \<lfloor>x + 1 / 2\<rfloor> else - \<lfloor>- x + 1 / 2\<rfloor>)),
      f_to_uint32 = (\<lambda>x. word_of_int (if x \<ge> 0 then \<lfloor>x\<rfloor> else - \<lfloor>- x\<rfloor>))\<rparr>"

text \<open>The configuration and the two records of the repository's test.\<close>

definition test_cfg :: SNMPConfig where
  "test_cfg = \<lparr>Enabled = True, cfg_Community = ''public'',
                EnterpriseOID = ''.1.3.6.1.4.1.55555''\<rparr>"

definition test_store :: "rat SNMPOutput" where
  "test_store = \<lparr>config = test_cfg, cache = [], maxSize = 100, stats = [], siteIndex = [],
                  nextSiteIndex = 0\<rparr>"

definition resultSuccess :: TestResult where
  "resultSuccess =
     \<lparr>Timestamp = \<lparr>unix_sec = 1700000000, nsec = 0\<rparr>, TestID = ''t1'',
      Site_Name = ''example.com'', Site_URL = ''https://example.com'',
      Status_Success = True, Timings_TotalDurationMs = 150\<rparr>"

definition resultFailure :: TestResult where
  "resultFailure =
     \<lparr>Timestamp = \<lparr>unix_sec = 1700000000, nsec = 500000000\<rparr>, TestID = ''t2'',
      Site_Name = ''example.com'', Site_URL = ''https://example.com'',
      Status_Success = False, Timings_TotalDurationMs = 320\<rparr>"

text \<open>A record without a site name.\<close>

definition resultOther :: TestResult where
  "resultOther =
     \<lparr>Timestamp = \<lparr>unix_sec = 1700000060, nsec = 0\<rparr>, TestID = ''t3'',
      Site_Name = [], Site_URL = ''https://example.org'',
      Status_Success = True, Timings_TotalDurationMs = 90\<rparr>"

text \<open>A system that gives up to 1 GiB to a slice.\<close>

definition test_mem :: "nat \<Rightarrow> bool" where
  "test_mem n = (n * 40 \<le> 2 ^ 30)"

definition var :: "string \<Rightarrow> SnmpPDU" where
  "var oid = \<lparr>Name = oid, Type = UnknownType, Value = NilValue\<rparr>"

definition request ::
  "string \<Rightarrow> PDUType \<Rightarrow> 8 word \<Rightarrow> 32 word \<Rightarrow> SnmpPDU list \<Rightarrow> SnmpPacket" where
  "request community t nonRepeaters maxRepetitions vars =
     \<lparr>Version = Version2c, Community = community, PDUType = t, RequestID = 1, MsgID = 0,
      NonRepeaters = nonRepeaters, MaxRepetitions = maxRepetitions, Error = NoError,
      Variables = vars\<rparr>"

text \<open>
  The store after the two writes of the test, and its snapshot at an uptime of 7 seconds.
\<close>

definition test_written :: "rat SNMPOutput" where
  "test_written =
     \<lparr>config = test_cfg, cache = [resultSuccess, resultFailure], maxSize = 100,
      stats = [(''example.com'',
        \<lparr>TotalTests = 2, SuccessfulTests = 1, FailedTests = 1,
         LastSuccessTime = \<lparr>unix_sec = 1700000000, nsec = 0\<rparr>,
         LastFailureTime = \<lparr>unix_sec = 1700000000, nsec = 500000000\<rparr>,
         LastDurationMs = 320, AvgDurationMs = 235, MaxDurationMs = 320, MinDurationMs = 150\<rparr>)],
      siteIndex = [(''example.com'', 1)], nextSiteIndex = 1\<rparr>"

definition test_oids :: "string list" where
  "test_oids = [''.1.3.6.1.4.1.55555.1.0'', ''.1.3.6.1.4.1.55555.2.0'',
   ''.1.3.6.1.4.1.55555.3.0'', ''.1.3.6.1.4.1.55555.4.0'',
   ''.1.3.6.1.4.1.55555.5.1.1'', ''.1.3.6.1.4.1.55555.5.1.2'',
   ''.1.3.6.1.4.1.55555.5.1.3'', ''.1.3.6.1.4.1.55555.5.1.4'',
   ''.1.3.6.1.4.1.55555.5.1.5'', ''.1.3.6.1.4.1.55555.5.1.6'',
   ''.1.3.6.1.4.1.55555.5.1.7'', ''.1.3.6.1.4.1.55555.5.1.8'',
   ''.1.3.6.1.4.1.55555.5.1.9'', ''.1.3.6.1.4.1.55555.5.1.10'']"

definition test_values :: "(string \<times> SnmpPDU) list" where
  "test_values =
  [(''.1.3.6.1.4.1.55555.1.0'', gaugePDU ''.1.3.6.1.4.1.55555.1.0'' 2),
   (''.1.3.6.1.4.1.55555.2.0'', gaugePDU ''.1.3.6.1.4.1.55555.2.0'' 100),
   (''.1.3.6.1.4.1.55555.3.0'', gaugePDU ''.1.3.6.1.4.1.55555.3.0'' 1),
   (''.1.3.6.1.4.1.55555.4.0'', timeTicksPDU ''.1.3.6.1.4.1.55555.4.0'' 7),
   (''.1.3.6.1.4.1.55555.5.1.1'', octetStringPDU ''.1.3.6.1.4.1.55555.5.1.1'' ''example.com''),
   (''.1.3.6.1.4.1.55555.5.1.2'', counterPDU ''.1.3.6.1.4.1.55555.5.1.2'' 2),
   (''.1.3.6.1.4.1.55555.5.1.3'', counterPDU ''.1.3.6.1.4.1.55555.5.1.3'' 1),
   (''.1.3.6.1.4.1.55555.5.1.4'', counterPDU ''.1.3.6.1.4.1.55555.5.1.4'' 1),
   (''.1.3.6.1.4.1.55555.5.1.5'', gaugePDU ''.1.3.6.1.4.1.55555.5.1.5'' 1700000000),
   (''.1.3.6.1.4.1.55555.5.1.6'', gaugePDU ''.1.3.6.1.4.1.55555.5.1.6'' 1700000000),
   (''.1.3.6.1.4.1.55555.5.1.7'', gaugePDU ''.1.3.6.1.4.1.55555.5.1.7'' 320),
   (''.1.3.6.1.4.1.55555.5.1.8'', gaugePDU ''.1.3.6.1.4.1.55555.5.1.8'' 235),
   (''.1.3.6.1.4.1.55555.5.1.9'', gaugePDU ''.1.3.6.1.4.1.55555.5.1.9'' 320),
   (''.1.3.6.1.4.1.55555.5.1.10'', gaugePDU ''.1.3.6.1.4.1.55555.5.1.10'' 150)]"

section \<open>Properties\<close>

subsection \<open>Splitting, parsing and printing\<close>

lemma Split_nonempty: "strings_Split s c \<noteq> []"
  by (induction s) (auto split: list.splits)

lemma Split_append:
  "strings_Split (xs @ c # ys) c = strings_Split xs c @ strings_Split ys c"
proof (induction xs)
  case Nil
  then show ?case by simp
next
  case (Cons x xs)
  then show ?case
    using Split_nonempty[of xs c] by (auto split: list.splits)
qed

lemma Split_no_sep: "c \<notin> set s \<Longrightarrow> strings_Split s c = [s]"
  by (induction s) auto

lemma digit_char_cases:
  "d < 10 \<Longrightarrow> d = 0 \<or> d = 1 \<or> d = 2 \<or> d = 3 \<or> d = 4 \<or> d = 5 \<or> d = 6 \<or> d = 7 \<or> d = 8 \<or> d = (9::nat)"
  by arith

lemma digit_of_digit_char: "d < 10 \<Longrightarrow> digit_of (digit_char d) = Some d"
  using digit_char_cases[of d]
  by (auto simp: digit_of_def digit_char_def Let_def)



lemma digit_of_nondigit:
  "digit_of (CHR ''.'') = None" "digit_of (CHR ''-'') = None" "digit_of (CHR ''+'') = None"
  by (simp_all add: digit_of_def)

lemma digit_of_space: "asciiSpace c \<Longrightarrow> digit_of c = None"
  unfolding asciiSpace_def by (elim disjE) (simp_all add: digit_of_def)

lemma is_digit_digit_char: "d < 10 \<Longrightarrow> is_digit (digit_char d)"
  by (simp add: is_digit_def digit_of_digit_char)

lemma is_digit_not:
  "is_digit c \<Longrightarrow> c \<noteq> CHR ''.'' \<and> c \<noteq> CHR ''-'' \<and> c \<noteq> CHR ''+'' \<and> \<not> asciiSpace c"
  using digit_of_nondigit digit_of_space by (auto simp: is_digit_def)

lemma nat_digits_digits: "\<forall>c \<in> set (nat_digits n). is_digit c"
proof (induction n rule: nat_digits.induct)
  case (1 n)
  show ?case
  proof (cases "n < 10")
    case True
    then show ?thesis by (subst nat_digits.simps) (simp add: is_digit_digit_char)
  next
    case False
    then have "\<forall>c \<in> set (nat_digits (n div 10)). is_digit c" using 1 by simp
    with False show ?thesis
      by (subst nat_digits.simps) (simp add: is_digit_digit_char)
  qed
qed

lemma nat_digits_nonempty: "nat_digits n \<noteq> []"
  by (subst nat_digits.simps) simp

lemma parse_digits_append:
  "parse_digits (xs @ ys) n =
     (case parse_digits xs n of None \<Rightarrow> None | Some m \<Rightarrow> parse_digits ys m)"
  by (induction xs arbitrary: n) (auto split: option.splits)

lemma parse_nat_digits: "parse_digits (nat_digits n) 0 = Some n"
proof (induction n rule: nat_digits.induct)
  case (1 n)
  show ?case
  proof (cases "n < 10")
    case True
    then show ?thesis by (subst nat_digits.simps) (simp add: digit_of_digit_char)
  next
    case False
    then have "parse_digits (nat_digits (n div 10)) 0 = Some (n div 10)" using 1 by simp
    with False show ?thesis
      by (subst nat_digits.simps) (simp add: parse_digits_append digit_of_digit_char)
  qed
qed


lemma hd_nat_digits: "hd (nat_digits n) \<noteq> CHR ''-'' \<and> hd (nat_digits n) \<noteq> CHR ''+''"
proof -
  have "hd (nat_digits n) \<in> set (nat_digits n)" using nat_digits_nonempty by simp
  then have "is_digit (hd (nat_digits n))" using nat_digits_digits by blast
  then show ?thesis using is_digit_not by blast
qed

lemma Atoi_fmt_d:
  assumes "- (2 ^ 63) \<le> i" "i < 2 ^ 63"
  shows "strconv_Atoi (fmt_d i) = Some i"
proof (cases "i < 0")
  case True
  obtain c cs where cs: "nat_digits (nat (- i)) = c # cs"
    using nat_digits_nonempty[of "nat (- i)"] by (cases "nat_digits (nat (- i))") auto
  have "parse_digits (c # cs) 0 = Some (nat (- i))"
    using parse_nat_digits[of "nat (- i)"] cs by simp
  with True assms cs show ?thesis
    by (simp add: strconv_Atoi_def fmt_d_def Let_def del: parse_digits.simps)
next
  case False
  obtain c cs where cs: "nat_digits (nat i) = c # cs"
    using nat_digits_nonempty[of "nat i"] by (cases "nat_digits (nat i)") auto
  have c: "c \<noteq> CHR ''-''" "c \<noteq> CHR ''+''" using hd_nat_digits[of "nat i"] cs by auto
  have "parse_digits (c # cs) 0 = Some (nat i)"
    using parse_nat_digits[of "nat i"] cs by simp
  with False assms cs c show ?thesis
    by (simp add: strconv_Atoi_def fmt_d_def Let_def del: parse_digits.simps)
qed

lemma atoi0_fmt_d_sint: "atoi0 (fmt_d (sint (w :: 64 word))) = sint w"
proof -
  have "- (2 ^ 63) \<le> sint w" "sint w < 2 ^ 63"
    using sint_range_size[of w] by (simp_all add: word_size)
  then show ?thesis by (simp add: atoi0_def Atoi_fmt_d)
qed

lemma fmt_d_no_dot: "CHR ''.'' \<notin> set (fmt_d i)"
proof -
  have "\<And>n. CHR ''.'' \<notin> set (nat_digits n)"
    using nat_digits_digits is_digit_not by blast
  then show ?thesis by (simp add: fmt_d_def)
qed

subsection \<open>The order of addresses\<close>

lemma compare_parts_ints: "compare_parts ap bp = compare_ints (map atoi0 ap) (map atoi0 bp)"
  by (induction ap bp rule: compare_parts.induct) (simp_all add: Let_def)

lemma compare_ints_refl: "compare_ints x x = 0"
  by (induction x) simp_all

lemma compareOIDs_keys: "compareOIDs a b = compare_keys (oid_key a) (oid_key b)"
  by (simp add: compareOIDs_def compare_keys_def oid_key_def compare_parts_ints Let_def
      compare_ints_refl)

lemma compare_ints_range: "compare_ints x y = - 1 \<or> compare_ints x y = 0 \<or> compare_ints x y = 1"
  by (induction x y rule: compare_ints.induct) auto

lemma compare_ints_sym: "compare_ints y x = - compare_ints x y"
  by (induction x y rule: compare_ints.induct) auto

lemma compare_ints_le_simps:
  "compare_ints (a # x) [] \<le> 0 \<longleftrightarrow> a < 0 \<or> (a = 0 \<and> compare_ints x [] \<le> 0)"
  "compare_ints [] (b # y) \<le> 0 \<longleftrightarrow> 0 < b \<or> (b = 0 \<and> compare_ints [] y \<le> 0)"
  "compare_ints (a # x) (b # y) \<le> 0 \<longleftrightarrow> a < b \<or> (a = b \<and> compare_ints x y \<le> 0)"
  by auto

lemma compare_ints_trans:
  "compare_ints x y \<le> 0 \<Longrightarrow> compare_ints y z \<le> 0 \<Longrightarrow> compare_ints x z \<le> 0"
proof (induction x y arbitrary: z rule: compare_ints.induct)
  case 1
  then show ?case by simp
next
  case (2 a x)
  show ?case
  proof (cases z)
    case Nil
    with "2.prems" show ?thesis by simp
  next
    case (Cons c z')
    with "2.prems" "2.IH"[of z'] show ?thesis
      by (auto simp: compare_ints_le_simps simp del: compare_ints.simps)
  qed
next
  case (3 b y)
  show ?case
  proof (cases z)
    case Nil
    then show ?thesis by simp
  next
    case (Cons c z')
    with "3.prems" "3.IH"[of z'] show ?thesis
      by (auto simp: compare_ints_le_simps simp del: compare_ints.simps)
  qed
next
  case (4 a x b y)
  show ?case
  proof (cases z)
    case Nil
    with "4.prems" "4.IH"[of "[]"] show ?thesis
      by (auto simp: compare_ints_le_simps simp del: compare_ints.simps)
  next
    case (Cons c z')
    with "4.prems" "4.IH"[of z'] show ?thesis
      by (auto simp: compare_ints_le_simps simp del: compare_ints.simps)
  qed
qed

lemma compare_ints_eq: "compare_ints x y = 0 \<Longrightarrow> length x = length y \<Longrightarrow> x = y"
  by (induction x y rule: compare_ints.induct) (auto split: if_splits)

lemma compare_keys_range: "compare_keys x y = - 1 \<or> compare_keys x y = 0 \<or> compare_keys x y = 1"
  using compare_ints_range[of x y] by (auto simp: compare_keys_def Let_def)

lemma compare_keys_sym: "compare_keys y x = - compare_keys x y"
  using compare_ints_sym[of x y] by (auto simp: compare_keys_def Let_def)

lemma compare_keys_eq: "compare_keys x y = 0 \<longleftrightarrow> x = y"
  using compare_ints_eq[of x y] compare_ints_refl[of x]
  by (auto simp: compare_keys_def Let_def split: if_splits)

lemma compare_keys_le: 
  "compare_keys x y \<le> 0 \<longleftrightarrow> compare_ints x y < 0 \<or> (compare_ints x y = 0 \<and> length x \<le> length y)"
  using compare_ints_range[of x y] by (auto simp: compare_keys_def Let_def)

lemma compare_keys_trans:
  assumes "compare_keys x y \<le> 0" "compare_keys y z \<le> 0"
  shows "compare_keys x z \<le> 0"
proof -
  from assms have xy: "compare_ints x y \<le> 0" and yz: "compare_ints y z \<le> 0"
    by (auto simp: compare_keys_le)
  then have xz: "compare_ints x z \<le> 0" by (rule compare_ints_trans)
  show ?thesis
  proof (cases "compare_ints x z < 0")
    case True
    then show ?thesis by (simp add: compare_keys_le)
  next
    case False
    with xz have z0: "compare_ints x z = 0" by simp
    then have "compare_ints z x \<le> 0" using compare_ints_sym[of x z] by simp
    from compare_ints_trans[OF this xy] have "compare_ints y z \<ge> 0"
      using compare_ints_sym[of y z] by simp
    with yz have yz0: "compare_ints y z = 0" by simp
    from z0 have "compare_ints z x \<le> 0" using compare_ints_sym[of x z] by simp
    from compare_ints_trans[OF yz this] have "compare_ints x y \<ge> 0"
      using compare_ints_sym[of x y] by simp
    with xy have xy0: "compare_ints x y = 0" by simp
    from assms xy0 yz0 have "length x \<le> length y" "length y \<le> length z"
      by (auto simp: compare_keys_le)
    with z0 show ?thesis by (simp add: compare_keys_le)
  qed
qed

lemma compareOIDs_sym: "compareOIDs b a = - compareOIDs a b"
  using compare_keys_sym[of "oid_key a" "oid_key b"] by (simp add: compareOIDs_keys)

lemma compareOIDs_range: "compareOIDs a b = - 1 \<or> compareOIDs a b = 0 \<or> compareOIDs a b = 1"
  by (simp add: compareOIDs_keys compare_keys_range)

lemma compareOIDs_le_trans:
  "compareOIDs a b \<le> 0 \<Longrightarrow> compareOIDs b c \<le> 0 \<Longrightarrow> compareOIDs a c \<le> 0"
  unfolding compareOIDs_keys by (rule compare_keys_trans)

lemma compareOIDs_less_trans:
  assumes "compareOIDs a b < 0" "compareOIDs b c < 0"
  shows "compareOIDs a c < 0"
proof (rule ccontr)
  assume "\<not> compareOIDs a c < 0"
  then have "compareOIDs c a \<le> 0" using compareOIDs_sym[of a c] by simp
  moreover from assms have "compareOIDs a b \<le> 0" by simp
  ultimately have "compareOIDs c b \<le> 0" by (rule compareOIDs_le_trans)
  with assms(2) show False using compareOIDs_sym[of b c] by simp
qed

lemma compareOIDs_less_le_trans:
  assumes "compareOIDs a b < 0" "compareOIDs b c \<le> 0"
  shows "compareOIDs a c < 0"
proof (rule ccontr)
  assume "\<not> compareOIDs a c < 0"
  then have "compareOIDs c a \<le> 0" using compareOIDs_sym[of a c] by simp
  with assms(2) have "compareOIDs b a \<le> 0" by (rule compareOIDs_le_trans)
  with assms(1) show False using compareOIDs_sym[of a b] by simp
qed

lemma compareOIDs_eq0: "compareOIDs a b = 0 \<longleftrightarrow> oid_key a = oid_key b"
  by (simp add: compareOIDs_keys compare_keys_eq)

subsection \<open>Addresses written from their components\<close>

lemma dotted_simps:
  "dotted [] = []" "dotted (n # ns) = CHR ''.'' # fmt_d n @ dotted ns"
  by (simp_all add: dotted_def)

lemma dotted_append: "dotted (xs @ ys) = dotted xs @ dotted ys"
  by (simp add: dotted_def)

lemma Split_fmt_d_dotted:
  "strings_Split (fmt_d n @ dotted ns) (CHR ''.'') = fmt_d n # map fmt_d ns"
proof (induction ns arbitrary: n)
  case Nil
  then show ?case by (simp add: dotted_simps Split_no_sep fmt_d_no_dot)
next
  case (Cons m ms)
  have "strings_Split (fmt_d n @ CHR ''.'' # (fmt_d m @ dotted ms)) (CHR ''.'')
        = strings_Split (fmt_d n) (CHR ''.'') @ strings_Split (fmt_d m @ dotted ms) (CHR ''.'')"
    by (rule Split_append)
  then show ?case using Cons.IH[of m]
    by (simp add: dotted_simps Split_no_sep fmt_d_no_dot)
qed

lemma atoi0_fmt_d: "int64_range n \<Longrightarrow> atoi0 (fmt_d n) = n"
  by (simp add: atoi0_def Atoi_fmt_d int64_range_def)

lemma map_atoi0_fmt_d: "\<forall>n \<in> set ns. int64_range n \<Longrightarrow> map atoi0 (map fmt_d ns) = ns"
  by (induction ns) (simp_all add: atoi0_fmt_d)

lemma TrimPrefix_dot: "strings_TrimPrefix (CHR ''.'' # r) ''.'' = r"
  by (simp add: strings_TrimPrefix_def strings_HasPrefix_def)

lemma oid_key_base_dotted:
  assumes "\<forall>n \<in> set ns. int64_range n"
  shows "oid_key (CHR ''.'' # r @ dotted ns) = oid_key (CHR ''.'' # r) @ ns"
proof (cases ns)
  case Nil
  then show ?thesis by (simp add: dotted_simps)
next
  case (Cons m ms)
  have "strings_Split (r @ CHR ''.'' # (fmt_d m @ dotted ms)) (CHR ''.'')
        = strings_Split r (CHR ''.'') @ strings_Split (fmt_d m @ dotted ms) (CHR ''.'')"
    by (rule Split_append)
  then have "strings_Split (r @ dotted ns) (CHR ''.'') = strings_Split r (CHR ''.'') @ map fmt_d ns"
    using Cons by (simp add: dotted_simps Split_fmt_d_dotted)
  then show ?thesis using map_atoi0_fmt_d[OF assms]
    by (simp add: oid_key_def TrimPrefix_dot)
qed

lemma oid_key_dotted:
  assumes "\<forall>n \<in> set ns. int64_range n" "ns \<noteq> []"
  shows "oid_key (dotted ns) = ns"
proof -
  from assms(2) obtain m ms where ns: "ns = m # ms" by (cases ns) auto
  then show ?thesis using map_atoi0_fmt_d[OF assms(1)]
    by (simp add: oid_key_def dotted_simps TrimPrefix_dot Split_fmt_d_dotted)
qed

lemma compareOIDs_dotted:
  assumes "\<forall>n \<in> set xs. int64_range n" "xs \<noteq> []" "\<forall>n \<in> set ys. int64_range n" "ys \<noteq> []"
  shows "compareOIDs (dotted xs) (dotted ys) = compare_keys xs ys"
  using assms by (simp add: compareOIDs_keys oid_key_dotted)

lemma compareOIDs_base_dotted:
  assumes "\<forall>n \<in> set xs. int64_range n" "\<forall>n \<in> set ys. int64_range n"
  shows "compareOIDs (CHR ''.'' # r @ dotted xs) (CHR ''.'' # r @ dotted ys) = compare_keys xs ys"
proof -
  have "compare_ints (k @ xs) (k @ ys) = compare_ints xs ys" for k
    by (induction k) simp_all
  then show ?thesis using assms
    by (simp add: compareOIDs_keys oid_key_base_dotted compare_keys_def Let_def)
qed

lemma strip_trailing_dots_hd:
  "t \<noteq> [] \<Longrightarrow> strip_trailing_dots t \<noteq> [] \<and> hd (strip_trailing_dots t) = hd t"
proof (induction t rule: strip_trailing_dots.induct)
  case (1 t)
  show ?case
  proof (cases "strings_HasSuffix t ''.'' \<and> length t > 1")
    case True
    then have ne: "take (length t - 1) t \<noteq> []" by auto
    have "hd (take (length t - 1) t) = hd t" using True by (cases t) auto
    with "1.IH"[OF True ne] True show ?thesis
      by (subst (1 2) strip_trailing_dots.simps) simp
  next
    case False
    with "1.prems" show ?thesis by (subst (1 2) strip_trailing_dots.simps) auto
  qed
qed

lemma normalizeOID_hd: "\<exists>r. normalizeOID oid = CHR ''.'' # r"
proof -
  have *: "\<exists>r. strip_trailing_dots (CHR ''.'' # t) = CHR ''.'' # r" for t
    using strip_trailing_dots_hd[of "CHR ''.'' # t"]
    by (cases "strip_trailing_dots (CHR ''.'' # t)") auto
  show ?thesis
  proof (cases "strings_TrimSpace oid")
    case Nil
    then show ?thesis by (simp add: normalizeOID_def)
  next
    case (Cons c cs)
    show ?thesis
    proof (cases "c = CHR ''.''")
      case True
      with Cons * show ?thesis by (simp add: normalizeOID_def strings_HasPrefix_def)
    next
      case False
      with Cons * show ?thesis by (simp add: normalizeOID_def strings_HasPrefix_def)
    qed
  qed
qed

lemma snapshot_base_hd: "\<exists>r. snapshot_base s = CHR ''.'' # r"
  using normalizeOID_hd[of "EnterpriseOID (config s)"]
  by (auto simp: snapshot_base_def Let_def)

lemma set_insert_by: "set (insert_by lt x ys) = insert x (set ys)"
  by (induction ys) auto

lemma set_sort_Slice: "set (sort_Slice lt xs) = set xs"
  by (induction xs) (simp_all add: sort_Slice_def set_insert_by)

lemma distinct_insert_by: "distinct (insert_by lt x ys) = (x \<notin> set ys \<and> distinct ys)"
  by (induction ys) (auto simp: set_insert_by)

lemma distinct_sort_Slice: "distinct (sort_Slice lt xs) = distinct xs"
proof (induction xs)
  case Nil
  then show ?case by (simp add: sort_Slice_def)
next
  case (Cons x xs)
  then show ?case
    using set_sort_Slice[of lt xs] by (simp add: sort_Slice_def distinct_insert_by)
qed

lemma sorted_insert_by:
  assumes trans: "\<And>a b c. lt a b \<Longrightarrow> lt b c \<Longrightarrow> lt a c"
    and tot: "\<And>y. y \<in> set ys \<Longrightarrow> lt x y \<or> lt y x"
    and srt: "sorted_wrt lt ys"
  shows "sorted_wrt lt (insert_by lt x ys)"
  using tot srt
proof (induction ys)
  case Nil
  then show ?case by simp
next
  case (Cons y ys)
  show ?case
  proof (cases "lt y x")
    case True
    have "sorted_wrt lt (insert_by lt x ys)" using Cons by simp
    with True Cons.prems(2) show ?thesis by (auto simp: set_insert_by)
  next
    case False
    then have xy: "lt x y" using Cons.prems(1)[of y] by simp
    then have "\<forall>z \<in> set ys. lt x z" using Cons.prems(2) trans by auto
    with False xy Cons.prems(2) show ?thesis by simp
  qed
qed

lemma sorted_sort_Slice:
  assumes trans: "\<And>a b c. lt a b \<Longrightarrow> lt b c \<Longrightarrow> lt a c"
    and tot: "\<And>x y. x \<in> set xs \<Longrightarrow> y \<in> set xs \<Longrightarrow> x \<noteq> y \<Longrightarrow> lt x y \<or> lt y x"
    and dist: "distinct xs"
  shows "sorted_wrt lt (sort_Slice lt xs)"
  using tot dist
proof (induction xs)
  case Nil
  then show ?case by (simp add: sort_Slice_def)
next
  case (Cons x xs)
  have s: "sorted_wrt lt (sort_Slice lt xs)" using Cons by auto
  have "\<And>y. y \<in> set (sort_Slice lt xs) \<Longrightarrow> lt x y \<or> lt y x"
    using Cons.prems by (auto simp: set_sort_Slice)
  from sorted_insert_by[of lt "sort_Slice lt xs" x, OF trans this s]
  show ?case by (simp add: sort_Slice_def)
qed

text \<open>An address written from its components is in normal form.\<close>

lemma fmt_d_last: "fmt_d i \<noteq> [] \<and> is_digit (last (fmt_d i))"
proof -
  have "is_digit (last (nat_digits n))" for n
    using nat_digits_digits[of n] nat_digits_nonempty[of n] last_in_set by blast
  then show ?thesis
    by (simp add: fmt_d_def nat_digits_nonempty)
qed

lemma dotted_ends:
  assumes "ns \<noteq> []"
  shows "\<exists>r. dotted ns = CHR ''.'' # r" "dotted ns \<noteq> []" "is_digit (last (dotted ns))"
proof -
  from assms obtain n ms where ns: "ns = n # ms" by (cases ns) auto
  show "\<exists>r. dotted ns = CHR ''.'' # r" by (simp add: ns dotted_def)
  show "dotted ns \<noteq> []" by (simp add: ns dotted_def)
  from assms obtain ks k where sn: "ns = ks @ [k]" by (cases ns rule: rev_cases) auto
  have "dotted ns = dotted ks @ CHR ''.'' # fmt_d k" by (simp add: sn dotted_def)
  then have "last (dotted ns) = last (fmt_d k)" using fmt_d_last[of k] by simp
  then show "is_digit (last (dotted ns))" using fmt_d_last[of k] by simp
qed

lemma TrimSpace_id:
  assumes "t \<noteq> []" "\<not> asciiSpace (hd t)" "\<not> asciiSpace (last t)"
  shows "strings_TrimSpace t = t"
proof -
  from assms(1,2) have a: "dropWhile asciiSpace t = t" by (cases t) auto
  from assms(1,3) have b: "dropWhile asciiSpace (rev t) = rev t"
    by (cases "rev t") (auto simp: last_rev[symmetric] hd_rev)
  show ?thesis by (simp add: strings_TrimSpace_def a b)
qed

lemma normalizeOID_dotted:
  assumes "ns \<noteq> []"
  shows "normalizeOID (dotted ns) = dotted ns"
proof -
  note d = dotted_ends[OF assms]
  from d(1) obtain r where r: "dotted ns = CHR ''.'' # r" by blast
  have sp: "\<not> asciiSpace (hd (dotted ns))" by (simp add: r asciiSpace_def)
  have ls: "\<not> asciiSpace (last (dotted ns))" "last (dotted ns) \<noteq> CHR ''.''"
    using is_digit_not[OF d(3)] by simp_all
  have t: "strings_TrimSpace (dotted ns) = dotted ns"
    by (rule TrimSpace_id[OF d(2) sp ls(1)])
  have p: "strings_HasPrefix (dotted ns) ''.''"
    by (simp add: strings_HasPrefix_def r)
  have "\<not> strings_HasSuffix (dotted ns) ''.''"
  proof
    assume "strings_HasSuffix (dotted ns) ''.''"
    then have "drop (length (dotted ns) - 1) (dotted ns) = ''.''"
      by (simp add: strings_HasSuffix_def)
    moreover have "drop (length (dotted ns) - 1) (dotted ns) = [last (dotted ns)]"
      using d(2) by (metis append_butlast_last_id append_eq_conv_conj length_butlast)
    ultimately show False using ls(2) by simp
  qed
  then have s: "strip_trailing_dots (dotted ns) = dotted ns"
    by (subst strip_trailing_dots.simps) simp
  show ?thesis
    using d(2) by (simp add: normalizeOID_def Let_def t p s)
qed

subsection \<open>The table of a snapshot\<close>

lemma map_of_site_leaves:
  "map_of (site_leaves F siteBase e vs) = map_of vs ++ map_of (leaf_list F siteBase e)"
  by (rule ext) (simp add: site_leaves_def leaf_list_def Let_def update_conv' map_add_def)

lemma map_of_fold_site_leaves:
  "map_of (fold (site_leaves F siteBase) es vs) =
   fold (\<lambda>e m. m ++ map_of (leaf_list F siteBase e)) es (map_of vs)"
  by (induction es arbitrary: vs) (simp_all add: map_of_site_leaves)

lemma fold_map_add_none:
  "\<forall>e \<in> set es. g e k = None \<Longrightarrow> fold (\<lambda>e m. m ++ g e) es m0 k = m0 k"
  by (induction es arbitrary: m0) (simp_all add: map_add_def)

lemma fold_map_add_some:
  "e \<in> set es \<Longrightarrow> g e k = Some v \<Longrightarrow> \<forall>e' \<in> set es. e' \<noteq> e \<longrightarrow> g e' k = None \<Longrightarrow>
   fold (\<lambda>e m. m ++ g e) es m0 k = Some v"
proof (induction es arbitrary: m0)
  case Nil
  then show ?case by simp
next
  case (Cons a es)
  show ?case
  proof (cases "e \<in> set es")
    case True
    with Cons show ?thesis by simp
  next
    case False
    with Cons.prems have a: "a = e" and n: "\<forall>e' \<in> set es. g e' k = None" by auto
    have "fold (\<lambda>e m. m ++ g e) es (m0 ++ g a) k = (m0 ++ g a) k"
      using n by (rule fold_map_add_none)
    with a Cons.prems(2) show ?thesis by (simp add: map_add_def)
  qed
qed

lemma fold_map_add_cases:
  "fold (\<lambda>e m. m ++ g e) es m0 k = Some v \<Longrightarrow> m0 k = Some v \<or> (\<exists>e \<in> set es. g e k = Some v)"
proof (induction es arbitrary: m0)
  case Nil
  then show ?case by simp
next
  case (Cons a es)
  from Cons.IH[of "m0 ++ g a"] Cons.prems show ?case
    by (auto simp: map_add_def split: option.splits)
qed

lemma fold_map_add_dom:
  "dom (fold (\<lambda>e m. m ++ g e) es m0) = dom m0 \<union> (\<Union>e \<in> set es. dom (g e))"
  by (induction es arbitrary: m0) auto

lemma fmt_d_small:
  "fmt_d 0 = ''0''" "fmt_d 1 = ''1''" "fmt_d 2 = ''2''" "fmt_d 3 = ''3''" "fmt_d 4 = ''4''"
  "fmt_d 5 = ''5''" "fmt_d 6 = ''6''" "fmt_d 7 = ''7''" "fmt_d 8 = ''8''" "fmt_d 9 = ''9''"
  "fmt_d 10 = ''10''"
  by (simp_all add: fmt_d_def nat_digits.simps digit_char_def)

lemma leaf_list_keys:
  "map fst (leaf_list F (base @ ''.5'') e) =
   map (\<lambda>j. base @ dotted [5, sint (entry_index e), j]) [1, 2, 3, 4, 5, 6, 7, 8, 9, 10]"
  by (simp add: leaf_list_def Let_def dotted_simps fmt_d_small)

lemma leaf_list_names: "(k, v) \<in> set (leaf_list F siteBase e) \<Longrightarrow> Name v = k"
  by (auto simp: leaf_list_def Let_def octetStringPDU_def counterPDU_def gaugePDU_def)

lemma int64_range_small:
  "int64_range 0" "int64_range 1" "int64_range 2" "int64_range 3" "int64_range 4"
  "int64_range 5" "int64_range 6" "int64_range 7" "int64_range 8" "int64_range 9"
  "int64_range 10"
  by (simp_all add: int64_range_def)

lemma int64_range_sint: "int64_range (sint (w :: 64 word))"
  using sint_range_size[of w] by (simp add: int64_range_def word_size)

lemma map_of_snapshot_values:
  "map_of (snapshot_values F uptime s) =
   fold (\<lambda>e m. m ++ map_of (leaf_list F (snapshot_base s @ ''.5'') e)) (snapshot_entries s)
        (map_of (scalar_list uptime s))"
proof -
  have "map_of (AList.update (b @ ''.4.0'') v4 (AList.update (b @ ''.3.0'') v3
          (AList.update (b @ ''.2.0'') v2 (AList.update (b @ ''.1.0'') v1 []))))
        = map_of [(b @ ''.1.0'', v1), (b @ ''.2.0'', v2), (b @ ''.3.0'', v3), (b @ ''.4.0'', v4)]"
    for b :: string and v1 v2 v3 v4 :: SnmpPDU
    by (rule ext) (simp add: update_conv')
  then show ?thesis
    by (simp add: snapshot_values_def Let_def map_of_fold_site_leaves scalar_list_def
        snapshot_entries_def)
qed

lemma scalar_list_keys:
  "map fst (scalar_list uptime s) = map (\<lambda>p. snapshot_base s @ dotted p) [[1, 0], [2, 0], [3, 0], [4, 0]]"
  by (simp add: scalar_list_def Let_def dotted_simps fmt_d_small)

lemma scalar_list_names: "(k, v) \<in> set (scalar_list uptime s) \<Longrightarrow> Name v = k"
  by (auto simp: scalar_list_def Let_def gaugePDU_def timeTicksPDU_def)

lemma distinct_snapshot_values: "distinct (map fst (snapshot_values F uptime s))"
proof -
  have l: "distinct (map fst vs) \<Longrightarrow> distinct (map fst (site_leaves F sb e vs))"
    for sb e and vs :: "(string \<times> SnmpPDU) list"
    by (simp add: site_leaves_def Let_def distinct_update)
  have f: "distinct (map fst vs) \<Longrightarrow> distinct (map fst (fold (site_leaves F sb) es vs))"
    for sb es and vs :: "(string \<times> SnmpPDU) list"
    by (induction es arbitrary: vs) (simp_all add: l)
  show ?thesis
    unfolding snapshot_values_def Let_def
    by (rule f) (simp add: distinct_update)
qed

lemma snapshot_keys:
  "fst ` set (snapshot_values F uptime s) = (\<lambda>p. snapshot_base s @ dotted p) ` set (table_paths s)"
proof -
  have "fst ` set (snapshot_values F uptime s) = dom (map_of (snapshot_values F uptime s))"
    by (simp add: dom_map_of_conv_image_fst)
  also have "\<dots> = dom (map_of (scalar_list uptime s)) \<union>
      (\<Union>e \<in> set (snapshot_entries s). dom (map_of (leaf_list F (snapshot_base s @ ''.5'') e)))"
    by (simp only: map_of_snapshot_values fold_map_add_dom)
  also have "\<dots> = set (map fst (scalar_list uptime s)) \<union>
      (\<Union>e \<in> set (snapshot_entries s). set (map fst (leaf_list F (snapshot_base s @ ''.5'') e)))"
    by (simp only: dom_map_of_conv_image_fst set_map)
  also have "\<dots> = (\<lambda>p. snapshot_base s @ dotted p) ` set (table_paths s)"
    unfolding scalar_list_keys leaf_list_keys table_paths_def
    by (auto simp: image_Un image_UN)
  finally show ?thesis .
qed

lemma table_paths_range: "p \<in> set (table_paths s) \<Longrightarrow> \<forall>n \<in> set p. int64_range n"
  by (auto simp: table_paths_def int64_range_small int64_range_sint)

lemma snapshot_names:
  assumes "map_of (snapshot_values F uptime s) k = Some v"
  shows "Name v = k"
proof -
  from assms fold_map_add_cases[of "\<lambda>e. map_of (leaf_list F (snapshot_base s @ ''.5'') e)"
      "snapshot_entries s" "map_of (scalar_list uptime s)" k v]
  have "map_of (scalar_list uptime s) k = Some v \<or>
        (\<exists>e \<in> set (snapshot_entries s). map_of (leaf_list F (snapshot_base s @ ''.5'') e) k = Some v)"
    by (simp add: map_of_snapshot_values)
  then show ?thesis
    by (auto dest!: map_of_SomeD dest: scalar_list_names leaf_list_names)
qed

lemma snapshot_compare:
  assumes "p \<in> set (table_paths s)" "q \<in> set (table_paths s)"
  shows "compareOIDs (snapshot_base s @ dotted p) (snapshot_base s @ dotted q) = compare_keys p q"
proof -
  obtain r where "snapshot_base s = CHR ''.'' # r" using snapshot_base_hd by blast
  then show ?thesis
    using compareOIDs_base_dotted[of p q r] table_paths_range[OF assms(1)] table_paths_range[OF assms(2)]
    by simp
qed

lemma snapshot_total:
  assumes "a \<in> fst ` set (snapshot_values F uptime s)" "b \<in> fst ` set (snapshot_values F uptime s)"
    "a \<noteq> b"
  shows "compareOIDs a b \<noteq> 0"
proof -
  from assms obtain p q where p: "p \<in> set (table_paths s)" "a = snapshot_base s @ dotted p"
    and q: "q \<in> set (table_paths s)" "b = snapshot_base s @ dotted q"
    unfolding snapshot_keys by blast
  with assms(3) have "p \<noteq> q" by auto
  then show ?thesis using snapshot_compare[OF p(1) q(1)] p(2) q(2) by (simp add: compare_keys_eq)
qed

lemma snapshot_sorted:
  assumes "buildOIDSnapshot F uptime s = (sortedOIDs, values)"
  shows "sorted_wrt (\<lambda>a b. compareOIDs a b < 0) sortedOIDs"
    and "set sortedOIDs = fst ` set values" and "distinct sortedOIDs"
    and "values = snapshot_values F uptime s"
proof -
  from assms have v: "values = snapshot_values F uptime s"
    and o: "sortedOIDs = sort_Slice (\<lambda>a b. compareOIDs a b < 0) (map fst values)"
    by (auto simp: buildOIDSnapshot_def Let_def)
  show "values = snapshot_values F uptime s" by fact
  show "set sortedOIDs = fst ` set values" by (simp add: o set_sort_Slice)
  show "distinct sortedOIDs" by (simp add: o distinct_sort_Slice v distinct_snapshot_values)
  have tot: "compareOIDs x y < 0 \<or> compareOIDs y x < 0"
    if "x \<in> set (map fst values)" "y \<in> set (map fst values)" "x \<noteq> y" for x y
    using snapshot_total[of x F uptime s y] that compareOIDs_sym[of x y] by (auto simp: v)
  show "sorted_wrt (\<lambda>a b. compareOIDs a b < 0) sortedOIDs"
    unfolding o
  proof (rule sorted_sort_Slice)
    show "compareOIDs a b < 0 \<Longrightarrow> compareOIDs b c < 0 \<Longrightarrow> compareOIDs a c < 0" for a b c
      by (rule compareOIDs_less_trans)
    show "x \<in> set (map fst values) \<Longrightarrow> y \<in> set (map fst values) \<Longrightarrow> x \<noteq> y \<Longrightarrow>
          compareOIDs x y < 0 \<or> compareOIDs y x < 0" for x y
      by (rule tot)
    show "distinct (map fst values)" by (simp add: v distinct_snapshot_values)
  qed
qed

subsection \<open>The snapshot of the test\<close>

lemma test_writes: "Writes exact_ops test_store [resultSuccess, resultFailure] = Some test_written"
  by (simp add: Write_def Let_def test_store_def resultSuccess_def resultFailure_def
      test_written_def update_stats_def new_siteStats_def exact_ops_def zero_Time_def)

lemma test_base: "snapshot_base test_written = ''.1.3.6.1.4.1.55555''"
proof -
  have "normalizeOID ''.1.3.6.1.4.1.55555'' = ''.1.3.6.1.4.1.55555''" by code_simp
  then show ?thesis by (simp add: snapshot_base_def test_written_def test_cfg_def)
qed

lemma test_snapshot_values: "snapshot_values exact_ops 7 test_written = test_values"
proof -
  have e: "collect_entries (stats test_written) (siteIndex test_written) =
           [\<lparr>entry_name = ''example.com'', entry_index = 1,
             entry_stats = snd (hd (stats test_written))\<rparr>]"
    by (simp add: test_written_def)
  have l: "length (cache test_written) = 2" "maxSize test_written = 100"
    "length (siteIndex test_written) = 1"
    by (simp_all add: test_written_def)
  have st: "snd (hd (stats test_written)) =
        \<lparr>TotalTests = 2, SuccessfulTests = 1, FailedTests = 1,
         LastSuccessTime = \<lparr>unix_sec = 1700000000, nsec = 0\<rparr>,
         LastFailureTime = \<lparr>unix_sec = 1700000000, nsec = 500000000\<rparr>,
         LastDurationMs = 320, AvgDurationMs = 235, MaxDurationMs = 320, MinDurationMs = 150\<rparr>"
    by (simp add: test_written_def)
  have fl: "\<lfloor>(471::rat) / 2\<rfloor> = 235"
    by (rule floor_unique) simp_all
  show ?thesis
    unfolding snapshot_values_def test_base Let_def e l
    by (simp add: sort_Slice_def site_leaves_def fmt_d_small test_values_def st
        exact_ops_def IsZero_def Unix_def fl)
qed

lemma test_snapshot: "buildOIDSnapshot exact_ops 7 test_written = (test_oids, test_values)"
  by (simp add: buildOIDSnapshot_def test_snapshot_values test_values_def test_oids_def
      sort_Slice_def Let_def compareOIDs_def strings_TrimPrefix_def strings_HasPrefix_def
      atoi0_def strconv_Atoi_def digit_of_def)

lemmas eval_compare = compareOIDs_def Let_def strings_TrimPrefix_def strings_HasPrefix_def
      atoi0_def strconv_Atoi_def digit_of_def

lemma test_normal:
  "normalizeOID ''.1.3.6.1.4.1.55555'' = ''.1.3.6.1.4.1.55555''"
  "normalizeOID ''.1.3.6.1.4.1.55555.5.1.8'' = ''.1.3.6.1.4.1.55555.5.1.8''"
  "normalizeOID ''.1.3.6.1.4.1.55555.5.1.10'' = ''.1.3.6.1.4.1.55555.5.1.10''"
  by code_simp+

lemma test_next:
  "nextOID test_oids ''.1.3.6.1.4.1.55555'' = Some ''.1.3.6.1.4.1.55555.1.0''"
  "nextOID test_oids ''.1.3.6.1.4.1.55555.5.1.10'' = None"
  by (simp_all add: test_oids_def eval_compare)

lemma list_of_length_2: "length xs = 2 \<Longrightarrow> xs = [xs ! 0, xs ! 1]"
  by (cases xs; cases "tl xs") auto

lemma test_greater:
  "greater_oids test_oids ''.1.3.6.1.4.1.55555.5.1.8'' =
     [''.1.3.6.1.4.1.55555.5.1.9'', ''.1.3.6.1.4.1.55555.5.1.10'']"
  by (simp add: greater_oids_def test_oids_def eval_compare)

subsection \<open>GetNext\<close>

lemma nextOID_None: "nextOID xs cur = None \<longleftrightarrow> (\<forall>u \<in> set xs. \<not> compareOIDs u cur > 0)"
  by (induction xs) auto

lemma nextOID_Some:
  "nextOID xs cur = Some t \<Longrightarrow>
   \<exists>pre post. xs = pre @ t # post \<and> compareOIDs t cur > 0 \<and> (\<forall>u \<in> set pre. \<not> compareOIDs u cur > 0)"
proof (induction xs)
  case Nil
  then show ?case by simp
next
  case (Cons x xs)
  show ?case
  proof (cases "compareOIDs x cur > 0")
    case True
    with Cons.prems have "x = t" by simp
    with True have "x # xs = [] @ t # xs \<and> compareOIDs t cur > 0 \<and> (\<forall>u \<in> set []. \<not> compareOIDs u cur > 0)"
      by simp
    then show ?thesis by blast
  next
    case False
    with Cons obtain pre post where
      p: "xs = pre @ t # post" "compareOIDs t cur > 0" "\<forall>u \<in> set pre. \<not> compareOIDs u cur > 0"
      by auto
    with False have "x # xs = (x # pre) @ t # post \<and> compareOIDs t cur > 0 \<and>
        (\<forall>u \<in> set (x # pre). \<not> compareOIDs u cur > 0)"
      by simp
    then show ?thesis by blast
  qed
qed

lemma nextOID_least:
  assumes "sorted_wrt (\<lambda>a b. compareOIDs a b < 0) xs" "nextOID xs cur = Some t"
  shows "t \<in> set xs \<and> compareOIDs t cur > 0 \<and>
         (\<forall>u \<in> set xs. compareOIDs u cur > 0 \<longrightarrow> u = t \<or> compareOIDs t u < 0)"
proof -
  from nextOID_Some[OF assms(2)] obtain pre post where
    p: "xs = pre @ t # post" "compareOIDs t cur > 0" "\<forall>u \<in> set pre. \<not> compareOIDs u cur > 0"
    by blast
  from assms(1) p(1) have "\<forall>u \<in> set post. compareOIDs t u < 0"
    by (simp add: sorted_wrt_append)
  with p show ?thesis by auto
qed

lemma sorted_wrt_last:
  assumes "sorted_wrt lt xs" "u \<in> set xs"
  shows "u = last xs \<or> lt u (last xs)"
proof -
  from assms(2) have ne: "xs \<noteq> []" by auto
  then have "xs = butlast xs @ [last xs]" by simp
  with assms(1) have "sorted_wrt lt (butlast xs @ [last xs])" by simp
  then have "\<forall>v \<in> set (butlast xs). lt v (last xs)" by (simp add: sorted_wrt_append)
  moreover from assms(2) ne have "u = last xs \<or> u \<in> set (butlast xs)"
    by (metis Un_iff append_butlast_last_id empty_iff empty_set set_ConsD set_append)
  ultimately show ?thesis by blast
qed

lemma handleGetNext_length: "length (handleGetNext vars valueMap sortedOIDs) = length vars"
  by (induction vars) (simp_all add: Let_def)

lemma handleGetNext_nth:
  "i < length vars \<Longrightarrow>
   handleGetNext vars valueMap sortedOIDs ! i =
     (case nextOID sortedOIDs (normalizeOID (Name (vars ! i))) of
        None \<Rightarrow> \<lparr>Name = normalizeOID (Name (vars ! i)), Type = EndOfMibView, Value = NilValue\<rparr>
      | Some nxt \<Rightarrow> map_index valueMap nxt)"
proof (induction vars arbitrary: i)
  case Nil
  then show ?case by simp
next
  case (Cons vb vars)
  then show ?case by (cases i) (auto simp: Let_def split: option.splits)
qed

lemma snapshot_lookup:
  assumes "buildOIDSnapshot F uptime s = (sortedOIDs, values)" "t \<in> set sortedOIDs"
  shows "\<exists>v. map_of values t = Some v \<and> map_index values t = v \<and> Name v = t"
proof -
  from snapshot_sorted[OF assms(1)] assms(2) have "t \<in> fst ` set values"
    and v: "values = snapshot_values F uptime s" by auto
  then obtain v where m: "map_of values t = Some v"
    by (metis domD dom_map_of_conv_image_fst)
  with v have "Name v = t" using snapshot_names by blast
  with m show ?thesis by (simp add: map_index_def)
qed

lemma snapshot_nonempty:
  assumes "buildOIDSnapshot F uptime s = (sortedOIDs, values)"
  shows "sortedOIDs \<noteq> []"
proof -
  have "[1, 0] \<in> set (table_paths s)" by (simp add: table_paths_def)
  then have "fst ` set (snapshot_values F uptime s) \<noteq> {}" unfolding snapshot_keys by auto
  with snapshot_sorted(2,4)[OF assms] show ?thesis by auto
qed

lemma snapshot_none_greater:
  assumes "buildOIDSnapshot F uptime s = (sortedOIDs, values)"
  shows "(\<forall>u \<in> set sortedOIDs. compareOIDs u oid \<le> 0) \<longleftrightarrow> compareOIDs oid (last sortedOIDs) \<ge> 0"
proof
  assume a: "\<forall>u \<in> set sortedOIDs. compareOIDs u oid \<le> 0"
  have "last sortedOIDs \<in> set sortedOIDs" using snapshot_nonempty[OF assms] by simp
  with a have "compareOIDs (last sortedOIDs) oid \<le> 0" by blast
  then show "compareOIDs oid (last sortedOIDs) \<ge> 0"
    using compareOIDs_sym[of "last sortedOIDs" oid] by simp
next
  assume "compareOIDs oid (last sortedOIDs) \<ge> 0"
  then have l: "compareOIDs (last sortedOIDs) oid \<le> 0"
    using compareOIDs_sym[of "last sortedOIDs" oid] by simp
  show "\<forall>u \<in> set sortedOIDs. compareOIDs u oid \<le> 0"
  proof
    fix u assume "u \<in> set sortedOIDs"
    with sorted_wrt_last[OF snapshot_sorted(1)[OF assms]]
    have "u = last sortedOIDs \<or> compareOIDs u (last sortedOIDs) < 0" by blast
    then have "compareOIDs u (last sortedOIDs) \<le> 0" by (auto simp: compareOIDs_def)
    from compareOIDs_le_trans[OF this l] show "compareOIDs u oid \<le> 0" .
  qed
qed

text \<open>
  C1. A GetNext request over the snapshot of any store gives one reply per requested
  address, in request order. With \<open>oid\<close> the requested address in the normal form of
  \<^verbatim>\<open>normalizeOID\<close>: when no address of the table compares greater than \<open>oid\<close>, which
  is when \<open>oid\<close> compares greater than or equal to the last (greatest) address of the
  sorted table, the reply is an \<open>EndOfMibView\<close> marker at \<open>oid\<close>; otherwise the reply is
  the value the table binds to the least address \<open>t\<close> among those that compare greater
  than \<open>oid\<close>, and it carries that address.
\<close>

theorem handleGetNext_spec:
  assumes "buildOIDSnapshot F uptime s = (sortedOIDs, values)"
  shows "length (handleGetNext vars values sortedOIDs) = length vars \<and>
    (\<forall>i < length vars.
       let oid = normalizeOID (Name (vars ! i));
           reply = handleGetNext vars values sortedOIDs ! i
       in ((\<forall>u \<in> set sortedOIDs. compareOIDs u oid \<le> 0) \<and>
            compareOIDs oid (last sortedOIDs) \<ge> 0 \<and>
            reply = \<lparr>Name = oid, Type = EndOfMibView, Value = NilValue\<rparr>) \<or>
          (\<exists>t \<in> set sortedOIDs.
             compareOIDs t oid > 0 \<and>
             (\<forall>u \<in> set sortedOIDs. compareOIDs u oid > 0 \<longrightarrow> u = t \<or> compareOIDs t u < 0) \<and>
             map_of values t = Some reply \<and> Name reply = t))"
proof (intro conjI allI impI)
  show "length (handleGetNext vars values sortedOIDs) = length vars"
    by (rule handleGetNext_length)
next
  fix i assume i: "i < length vars"
  define oid where "oid = normalizeOID (Name (vars ! i))"
  define reply where "reply = handleGetNext vars values sortedOIDs ! i"
  have r: "reply = (case nextOID sortedOIDs oid of
        None \<Rightarrow> \<lparr>Name = oid, Type = EndOfMibView, Value = NilValue\<rparr>
      | Some nxt \<Rightarrow> map_index values nxt)"
    unfolding reply_def oid_def using i by (rule handleGetNext_nth)
  have "((\<forall>u \<in> set sortedOIDs. compareOIDs u oid \<le> 0) \<and>
            compareOIDs oid (last sortedOIDs) \<ge> 0 \<and>
            reply = \<lparr>Name = oid, Type = EndOfMibView, Value = NilValue\<rparr>) \<or>
          (\<exists>t \<in> set sortedOIDs.
             compareOIDs t oid > 0 \<and>
             (\<forall>u \<in> set sortedOIDs. compareOIDs u oid > 0 \<longrightarrow> u = t \<or> compareOIDs t u < 0) \<and>
             map_of values t = Some reply \<and> Name reply = t)"
  proof (cases "nextOID sortedOIDs oid")
    case None
    then have n: "\<forall>u \<in> set sortedOIDs. compareOIDs u oid \<le> 0"
      by (auto simp: nextOID_None not_less)
    with snapshot_none_greater[OF assms, of oid] r None show ?thesis by simp
  next
    case (Some t)
    from nextOID_least[OF snapshot_sorted(1)[OF assms] Some]
    have t: "t \<in> set sortedOIDs" "compareOIDs t oid > 0"
      "\<forall>u \<in> set sortedOIDs. compareOIDs u oid > 0 \<longrightarrow> u = t \<or> compareOIDs t u < 0"
      by auto
    from snapshot_lookup[OF assms t(1)] r Some
    have "map_of values t = Some reply \<and> Name reply = t" by auto
    with t show ?thesis by blast
  qed
  then show "let oid = normalizeOID (Name (vars ! i));
           reply = handleGetNext vars values sortedOIDs ! i
       in ((\<forall>u \<in> set sortedOIDs. compareOIDs u oid \<le> 0) \<and>
            compareOIDs oid (last sortedOIDs) \<ge> 0 \<and>
            reply = \<lparr>Name = oid, Type = EndOfMibView, Value = NilValue\<rparr>) \<or>
          (\<exists>t \<in> set sortedOIDs.
             compareOIDs t oid > 0 \<and>
             (\<forall>u \<in> set sortedOIDs. compareOIDs u oid > 0 \<longrightarrow> u = t \<or> compareOIDs t u < 0) \<and>
             map_of values t = Some reply \<and> Name reply = t)"
    unfolding oid_def reply_def Let_def .
qed

theorem handleGetNext_spec_witness:
  "buildOIDSnapshot exact_ops 7 test_written = (test_oids, test_values) \<and>
   handleGetNext [var ''.1.3.6.1.4.1.55555'', var ''.1.3.6.1.4.1.55555.5.1.10'']
     test_values test_oids =
   [gaugePDU ''.1.3.6.1.4.1.55555.1.0'' 2,
    \<lparr>Name = ''.1.3.6.1.4.1.55555.5.1.10'', Type = EndOfMibView, Value = NilValue\<rparr>]"
proof -
  let ?vars = "[var ''.1.3.6.1.4.1.55555'', var ''.1.3.6.1.4.1.55555.5.1.10'']"
  let ?r = "handleGetNext ?vars test_values test_oids"
  have e: "?r ! 0 = gaugePDU ''.1.3.6.1.4.1.55555.1.0'' 2"
          "?r ! 1 = \<lparr>Name = ''.1.3.6.1.4.1.55555.5.1.10'', Type = EndOfMibView, Value = NilValue\<rparr>"
    by (simp_all add: var_def test_normal test_next map_index_def test_values_def)
  have "length ?r = length ?vars"
    by (rule handleGetNext_spec[OF test_snapshot, of ?vars, THEN conjunct1])
  then have "length ?r = 2" by simp
  then have "?r = [?r ! 0, ?r ! 1]" by (rule list_of_length_2)
  with e test_snapshot show ?thesis by simp
qed

subsection \<open>The order of the table\<close>

text \<open>
  C2. \<^verbatim>\<open>compareOIDs\<close> puts \<open>.5.2.1\<close> before \<open>.5.10.1\<close>. In the snapshot of any
  store, the sorted list holds exactly the addresses the table binds, each once, in
  ascending order; two addresses of the table compare as the lists of their integer
  components do (\<open>compare_keys\<close>); and on the table the comparison is a strict total
  order: an address does not compare less than itself, of two distinct addresses exactly
  one compares less than the other and they never compare equal, and "less" is transitive.
\<close>

theorem compareOIDs_snapshot_order:
  assumes "buildOIDSnapshot F uptime s = (sortedOIDs, values)"
  shows "compareOIDs ''.5.2.1'' ''.5.10.1'' < 0 \<and>
    set sortedOIDs = fst ` set values \<and> distinct sortedOIDs \<and>
    sorted_wrt (\<lambda>a b. compareOIDs a b < 0) sortedOIDs \<and>
    (\<forall>p \<in> set (table_paths s). \<forall>q \<in> set (table_paths s).
       snapshot_base s @ dotted p \<in> set sortedOIDs \<and>
       compareOIDs (snapshot_base s @ dotted p) (snapshot_base s @ dotted q) = compare_keys p q) \<and>
    (\<forall>a \<in> set sortedOIDs. \<forall>b \<in> set sortedOIDs.
       (a = b \<longrightarrow> compareOIDs a b = 0) \<and>
       (a \<noteq> b \<longrightarrow> compareOIDs a b \<noteq> 0 \<and> (compareOIDs a b < 0) = (\<not> compareOIDs b a < 0)) \<and>
       (\<forall>c \<in> set sortedOIDs. compareOIDs a b < 0 \<and> compareOIDs b c < 0 \<longrightarrow> compareOIDs a c < 0))"
proof -
  have ex: "compareOIDs ''.5.2.1'' ''.5.10.1'' < 0"
    by (simp add: compareOIDs_def Let_def strings_TrimPrefix_def strings_HasPrefix_def
        atoi0_def strconv_Atoi_def digit_of_def)
  note srt = snapshot_sorted[OF assms]
  have keys: "snapshot_base s @ dotted p \<in> set sortedOIDs" if "p \<in> set (table_paths s)" for p
    using that srt(2,4) snapshot_keys[of F uptime s] by blast
  have tot: "compareOIDs a b \<noteq> 0 \<and> (compareOIDs a b < 0) = (\<not> compareOIDs b a < 0)"
    if "a \<in> set sortedOIDs" "b \<in> set sortedOIDs" "a \<noteq> b" for a b
  proof -
    from that srt(2,4) have "compareOIDs a b \<noteq> 0"
      using snapshot_total[of a F uptime s b] by simp
    then show ?thesis using compareOIDs_sym[of a b] by auto
  qed
  have refl: "compareOIDs a a = 0" for a by (simp add: compareOIDs_def)
  show ?thesis
    using ex srt(1-3) keys snapshot_compare[of _ s] tot refl compareOIDs_less_trans
    by (intro conjI ballI impI) blast+
qed

theorem compareOIDs_snapshot_order_witness:
  "buildOIDSnapshot exact_ops 7 test_written = (test_oids, test_values) \<and>
   distinct test_oids \<and> sorted_wrt (\<lambda>a b. compareOIDs a b < 0) test_oids"
proof -
  note t = compareOIDs_snapshot_order[OF test_snapshot]
  have d: "distinct test_oids"
    by (rule t[THEN conjunct2, THEN conjunct2, THEN conjunct1])
  have s: "sorted_wrt (\<lambda>a b. compareOIDs a b < 0) test_oids"
    by (rule t[THEN conjunct2, THEN conjunct2, THEN conjunct2, THEN conjunct1])
  from d s test_snapshot show ?thesis by simp
qed

subsection \<open>GetBulk\<close>

lemma nextOID_append:
  "\<forall>u \<in> set pre. \<not> compareOIDs u cur > 0 \<Longrightarrow> nextOID (pre @ ys) cur = nextOID ys cur"
  by (induction pre) simp_all

lemma nextOID_at_element:
  assumes "sorted_wrt (\<lambda>a b. compareOIDs a b < 0) (pre @ t # post)"
  shows "nextOID (pre @ t # post) t = (case post of [] \<Rightarrow> None | p # _ \<Rightarrow> Some p)"
proof -
  from assms have pre: "\<forall>u \<in> set pre. compareOIDs u t < 0"
    and post: "\<forall>u \<in> set post. compareOIDs t u < 0"
    by (auto simp: sorted_wrt_append)
  from pre have "\<forall>u \<in> set pre. \<not> compareOIDs u t > 0" by auto
  then have "nextOID (pre @ t # post) t = nextOID (t # post) t" by (rule nextOID_append)
  also have "\<dots> = nextOID post t" by (simp add: compareOIDs_def)
  also have "\<dots> = (case post of [] \<Rightarrow> None | p # _ \<Rightarrow> Some p)"
  proof (cases post)
    case Nil
    then show ?thesis by simp
  next
    case (Cons p post')
    with post have "compareOIDs t p < 0" by simp
    then have "compareOIDs p t > 0" using compareOIDs_sym[of t p] by simp
    with Cons show ?thesis by simp
  qed
  finally show ?thesis .
qed

lemma bulk_walk_from_element:
  assumes "sorted_wrt (\<lambda>a b. compareOIDs a b < 0) (pre @ t # post)"
    and "\<forall>u \<in> set post. Name (map_index valueMap u) = u"
  shows "bulk_walk n t valueMap (pre @ t # post) =
         map (map_index valueMap) (take n post) @
         (if length post < n
          then [\<lparr>Name = last (t # post), Type = EndOfMibView, Value = NilValue\<rparr>] else [])"
  using assms
proof (induction n arbitrary: pre t post)
  case 0
  then show ?case by simp
next
  case (Suc n)
  show ?case
  proof (cases post)
    case Nil
    with nextOID_at_element[OF Suc.prems(1)] show ?thesis by simp
  next
    case (Cons p post')
    with nextOID_at_element[OF Suc.prems(1)]
    have nx: "nextOID (pre @ t # post) t = Some p" by simp
    have nm: "Name (map_index valueMap p) = p" using Suc.prems(2) Cons by simp
    have s': "sorted_wrt (\<lambda>a b. compareOIDs a b < 0) ((pre @ [t]) @ p # post')"
      using Suc.prems(1) Cons by simp
    have n': "\<forall>u \<in> set post'. Name (map_index valueMap u) = u" using Suc.prems(2) Cons by simp
    from Suc.IH[OF s' n']
    have "bulk_walk n p valueMap (pre @ t # post) =
         map (map_index valueMap) (take n post') @
         (if length post' < n
          then [\<lparr>Name = last (p # post'), Type = EndOfMibView, Value = NilValue\<rparr>] else [])"
      using Cons by simp
    with nx nm Cons show ?thesis by (simp add: Let_def)
  qed
qed

lemma dropWhile_filter_sorted:
  assumes "sorted_wrt lt xs" "\<And>u w. P u \<Longrightarrow> lt u w \<Longrightarrow> P w"
  shows "dropWhile (\<lambda>u. \<not> P u) xs = filter P xs"
  using assms(1)
proof (induction xs)
  case Nil
  then show ?case by simp
next
  case (Cons x xs)
  show ?case
  proof (cases "P x")
    case True
    with Cons.prems assms(2) have "\<forall>w \<in> set xs. P w" by auto
    then have "filter P xs = xs" by (simp add: filter_id_conv)
    with True show ?thesis by simp
  next
    case False
    with Cons show ?thesis by simp
  qed
qed

lemma greater_oids_dropWhile:
  assumes "sorted_wrt (\<lambda>a b. compareOIDs a b < 0) xs"
  shows "greater_oids xs cur = dropWhile (\<lambda>u. \<not> compareOIDs u cur > 0) xs"
  unfolding greater_oids_def
proof (rule dropWhile_filter_sorted[OF assms, symmetric])
  fix u w assume "0 < compareOIDs u cur" "compareOIDs u w < 0"
  then have "compareOIDs cur u < 0" using compareOIDs_sym[of u cur] by simp
  from compareOIDs_less_trans[OF this \<open>compareOIDs u w < 0\<close>]
  show "0 < compareOIDs w cur" using compareOIDs_sym[of w cur] by simp
qed

lemma bulk_walk_sorted:
  assumes "sorted_wrt (\<lambda>a b. compareOIDs a b < 0) xs"
    and "\<forall>u \<in> set xs. Name (map_index valueMap u) = u"
  shows "bulk_walk n cur valueMap xs =
         map (map_index valueMap) (take n (greater_oids xs cur)) @
         (if length (greater_oids xs cur) < n
          then [\<lparr>Name = last (cur # greater_oids xs cur), Type = EndOfMibView, Value = NilValue\<rparr>]
          else [])"
proof (cases n)
  case 0
  then show ?thesis by simp
next
  case (Suc m)
  show ?thesis
  proof (cases "nextOID xs cur")
    case None
    then have "\<forall>u \<in> set xs. \<not> compareOIDs u cur > 0" by (simp add: nextOID_None)
    then have "greater_oids xs cur = []" by (simp add: greater_oids_def)
    with None Suc show ?thesis by simp
  next
    case (Some t)
    from nextOID_Some[OF Some] obtain pre post where
      p: "xs = pre @ t # post" "compareOIDs t cur > 0" "\<forall>u \<in> set pre. \<not> compareOIDs u cur > 0"
      by blast
    have g: "greater_oids xs cur = t # post"
      unfolding greater_oids_dropWhile[OF assms(1)] using p by (simp add: dropWhile_append)
    have nm: "Name (map_index valueMap t) = t" using assms(2) p(1) by simp
    have "bulk_walk m t valueMap (pre @ t # post) =
         map (map_index valueMap) (take m post) @
         (if length post < m
          then [\<lparr>Name = last (t # post), Type = EndOfMibView, Value = NilValue\<rparr>] else [])"
      using assms p(1) by (intro bulk_walk_from_element) auto
    with Some Suc g nm p(1) show ?thesis by (simp add: Let_def)
  qed
qed

lemma bulk_non_repeaters_eq:
  "bulk_non_repeaters vars valueMap sortedOIDs = handleGetNext vars valueMap sortedOIDs"
  by (induction vars) simp_all

lemma bulk_repeaters_concat:
  "bulk_repeaters r vars valueMap sortedOIDs =
   concat (map (\<lambda>vb. bulk_walk r (normalizeOID (Name vb)) valueMap sortedOIDs) vars)"
  by (induction vars) (simp_all add: Let_def)

lemma length_concat_le:
  "\<forall>x \<in> set xs. length (f x) \<le> r \<Longrightarrow> length (concat (map f xs)) \<le> length xs * r"
  by (induction xs) auto

lemma length_concat_eq:
  "\<forall>x \<in> set xs. length (f x) = r \<Longrightarrow> length (concat (map f xs)) = length xs * r"
  by (induction xs) auto

lemma length_bulk_walk:
  assumes "sorted_wrt (\<lambda>a b. compareOIDs a b < 0) xs"
    and "\<forall>u \<in> set xs. Name (map_index valueMap u) = u"
  shows "length (bulk_walk n cur valueMap xs) = min n (length (greater_oids xs cur) + 1)"
  by (simp add: bulk_walk_sorted[OF assms])

lemma length_concat_sum: "length (concat (map f xs)) = sum_list (map (\<lambda>x. length (f x)) xs)"
  by (induction xs) auto

lemma sint_word64_of_nat: "i < 2 ^ 63 \<Longrightarrow> sint (word_of_nat i :: 64 word) = int i"
  by (simp add: signed_of_nat signed_take_bit_int_eq_self)

lemma bulk_capacity:
  assumes "a * b < 2 ^ 63"
  shows "sint (word_of_nat a * word_of_nat b :: 64 word) = int (a * b)"
proof -
  have "(word_of_nat a * word_of_nat b :: 64 word) = word_of_nat (a * b)" by simp
  then show ?thesis using sint_word64_of_nat[OF assms] by simp
qed

lemma makeslice_None:
  assumes "n * 40 \<le> 2 ^ 48" "mem n"
  shows "makeslice mem (int n) = None"
proof -
  from assms(1) have "int (n * 40) \<le> int (2 ^ 48)" by (simp only: of_nat_le_iff)
  then have "\<not> 2 ^ 48 < int n * 40" by simp
  with assms(2) show ?thesis by (simp add: makeslice_def)
qed

lemma bulk_bound:
  assumes "k \<le> n" "1 \<le> r"
  shows "k + (n - k) * r \<le> n * (r :: nat)"
proof -
  from assms(2) have "k \<le> k * r" by simp
  moreover from assms(1) have "k * r + (n - k) * r = n * r"
    by (simp add: add_mult_distrib[symmetric])
  ultimately show ?thesis by linarith
qed

text \<open>
  C3 (as amended). A GetBulk request over the snapshot of any store, with \<open>k\<close> the
  non-repeater count clamped to the number \<open>n\<close> of addresses and \<open>r\<close> the repetition
  count clamped to at least 1. The handler returns its replies whenever the buffer of
  \<open>n * r\<close> replies it allocates first is within the runtime's limit and the memory is
  there. Of the replies it returns: the first \<open>k\<close> addresses are answered as GetNext
  answers them, one reply each; each remaining address is a cursor whose replies are the
  values of the first \<open>r\<close> table addresses greater than it, in ascending order,
  followed by one \<open>EndOfMibView\<close> marker at the last address reached when fewer than
  \<open>r\<close> exist. A cursor with \<open>a\<close> greater addresses so gives \<open>min r (a + 1)\<close>
  replies, the request at most \<open>k + m * r\<close>, and exactly that many when no cursor runs
  out of addresses.
\<close>

theorem handleGetBulk_spec:
  assumes "buildOIDSnapshot F uptime s = (sortedOIDs, values)"
  shows "let vars = Variables packet;
             k = min (unat (NonRepeaters packet)) (length vars);
             r = max 1 (unat (MaxRepetitions packet));
             avail = (\<lambda>vb. length (greater_oids sortedOIDs (normalizeOID (Name vb))))
         in (length vars * r * 40 \<le> 2 ^ 48 \<and> mem (length vars * r) \<longrightarrow>
               (\<exists>replies. handleGetBulk mem packet values sortedOIDs = Inr replies)) \<and>
            (\<forall>replies. handleGetBulk mem packet values sortedOIDs = Inr replies \<longrightarrow>
               replies =
                 handleGetNext (take k vars) values sortedOIDs @
                 concat (map (\<lambda>vb. bulk_walk r (normalizeOID (Name vb)) values sortedOIDs)
                             (drop k vars)) \<and>
               length replies = k + sum_list (map (\<lambda>vb. min r (avail vb + 1)) (drop k vars)) \<and>
               length replies \<le> k + (length vars - k) * r \<and>
               ((\<forall>vb \<in> set (drop k vars). r \<le> avail vb) \<longrightarrow>
                  length replies = k + (length vars - k) * r)) \<and>
            length (handleGetNext (take k vars) values sortedOIDs) = k \<and>
            (\<forall>cur. bulk_walk r cur values sortedOIDs =
                     map (map_index values) (take r (greater_oids sortedOIDs cur)) @
                     (if length (greater_oids sortedOIDs cur) < r
                      then [\<lparr>Name = last (cur # greater_oids sortedOIDs cur),
                              Type = EndOfMibView, Value = NilValue\<rparr>]
                      else [])) \<and>
            (\<forall>t \<in> set sortedOIDs.
               map_of values t = Some (map_index values t) \<and> Name (map_index values t) = t)"
proof -
  define vars where "vars = Variables packet"
  define k where "k = min (unat (NonRepeaters packet)) (length vars)"
  define r where "r = max 1 (unat (MaxRepetitions packet))"
  define avail where
    "avail = (\<lambda>vb :: SnmpPDU. length (greater_oids sortedOIDs (normalizeOID (Name vb))))"
  define walk where
    "walk = (\<lambda>vb :: SnmpPDU. bulk_walk r (normalizeOID (Name vb)) values sortedOIDs)"
  define res where
    "res = handleGetNext (take k vars) values sortedOIDs @ concat (map walk (drop k vars))"
  define capacity where
    "capacity = sint (word_of_nat (length vars) * word_of_nat r :: 64 word)"
  note srt = snapshot_sorted(1)[OF assms]
  have look: "map_of values t = Some (map_index values t) \<and> Name (map_index values t) = t"
    if "t \<in> set sortedOIDs" for t
    using snapshot_lookup[OF assms that] by auto
  then have nm: "\<forall>u \<in> set sortedOIDs. Name (map_index values u) = u" by blast
  have kk: "(if unat (NonRepeaters packet) > length vars then length vars
             else unat (NonRepeaters packet)) = k"
    by (simp add: k_def min_def)
  have rr: "(if unat (MaxRepetitions packet) \<le> 0 then 1 else unat (MaxRepetitions packet)) = r"
    by (simp add: r_def max_def)
  have unf: "handleGetBulk mem packet values sortedOIDs =
      (case makeslice mem capacity of
         Some f \<Rightarrow> Inl f
       | None \<Rightarrow> if capacity < int (length res) \<and> \<not> mem (length res)
                 then Inl OutOfMemory else Inr res)"
    unfolding handleGetBulk_def Let_def vars_def[symmetric] kk rr bulk_non_repeaters_eq
      bulk_repeaters_concat res_def capacity_def walk_def
    by (rule refl)
  have inr: "replies = res" if "handleGetBulk mem packet values sortedOIDs = Inr replies"
    for replies
    using that unfolding unf by (auto split: option.splits if_splits)
  have lk: "length (handleGetNext (take k vars) values sortedOIDs) = k"
    by (simp add: handleGetNext_length k_def)
  have wl: "length (walk vb) = min r (avail vb + 1)" for vb
    unfolding walk_def avail_def by (rule length_bulk_walk[OF srt nm])
  have len: "length res = k + sum_list (map (\<lambda>vb. min r (avail vb + 1)) (drop k vars))"
    by (simp add: res_def lk length_concat_sum wl)
  have "length (concat (map walk (drop k vars))) \<le> length (drop k vars) * r"
    by (rule length_concat_le) (simp add: wl)
  then have le: "length res \<le> k + (length vars - k) * r"
    by (simp add: res_def lk)
  have ex: "length res = k + (length vars - k) * r"
    if "\<forall>vb \<in> set (drop k vars). r \<le> avail vb"
  proof -
    have "length (concat (map walk (drop k vars))) = length (drop k vars) * r"
      by (rule length_concat_eq) (use that in \<open>auto simp: wl\<close>)
    then show ?thesis by (simp add: res_def lk)
  qed
  have ret: "handleGetBulk mem packet values sortedOIDs = Inr res"
    if a: "length vars * r * 40 \<le> 2 ^ 48" and m: "mem (length vars * r)"
  proof -
    have "length vars * r \<le> length vars * r * 40" by simp
    with a have "length vars * r \<le> 2 ^ 48" by linarith
    moreover have "(2 :: nat) ^ 48 < 2 ^ 63" by simp
    ultimately have "length vars * r < 2 ^ 63" by linarith
    then have c: "capacity = int (length vars * r)"
      unfolding capacity_def by (rule bulk_capacity)
    have ms: "makeslice mem capacity = None"
      unfolding c using a m by (rule makeslice_None)
    have "k \<le> length vars" "1 \<le> r" by (simp_all add: k_def r_def)
    then have "k + (length vars - k) * r \<le> length vars * r" by (rule bulk_bound)
    with le have "length res \<le> length vars * r" by linarith
    with c have "\<not> capacity < int (length res)"
      by (simp add: of_nat_le_iff[symmetric] del: of_nat_mult of_nat_le_iff)
    with ms show ?thesis unfolding unf by simp
  qed
  have p1: "length vars * r * 40 \<le> 2 ^ 48 \<and> mem (length vars * r) \<longrightarrow>
               (\<exists>replies. handleGetBulk mem packet values sortedOIDs = Inr replies)"
    using ret by blast
  have p2: "\<forall>replies. handleGetBulk mem packet values sortedOIDs = Inr replies \<longrightarrow>
               replies =
                 handleGetNext (take k vars) values sortedOIDs @
                 concat (map (\<lambda>vb. bulk_walk r (normalizeOID (Name vb)) values sortedOIDs)
                             (drop k vars)) \<and>
               length replies = k + sum_list (map (\<lambda>vb. min r (avail vb + 1)) (drop k vars)) \<and>
               length replies \<le> k + (length vars - k) * r \<and>
               ((\<forall>vb \<in> set (drop k vars). r \<le> avail vb) \<longrightarrow>
                  length replies = k + (length vars - k) * r)"
  proof (intro allI impI)
    fix replies assume "handleGetBulk mem packet values sortedOIDs = Inr replies"
    then have e: "replies = res" by (rule inr)
    show "replies =
                 handleGetNext (take k vars) values sortedOIDs @
                 concat (map (\<lambda>vb. bulk_walk r (normalizeOID (Name vb)) values sortedOIDs)
                             (drop k vars)) \<and>
               length replies = k + sum_list (map (\<lambda>vb. min r (avail vb + 1)) (drop k vars)) \<and>
               length replies \<le> k + (length vars - k) * r \<and>
               ((\<forall>vb \<in> set (drop k vars). r \<le> avail vb) \<longrightarrow>
                  length replies = k + (length vars - k) * r)"
      unfolding e using len le ex by (simp add: res_def walk_def)
  qed
  have p4: "\<forall>cur. bulk_walk r cur values sortedOIDs =
                     map (map_index values) (take r (greater_oids sortedOIDs cur)) @
                     (if length (greater_oids sortedOIDs cur) < r
                      then [\<lparr>Name = last (cur # greater_oids sortedOIDs cur),
                              Type = EndOfMibView, Value = NilValue\<rparr>]
                      else [])"
    using bulk_walk_sorted[OF srt nm] by blast
  have p5: "\<forall>t \<in> set sortedOIDs.
               map_of values t = Some (map_index values t) \<and> Name (map_index values t) = t"
    using look by blast
  from p1 p2 lk p4 p5 show ?thesis
    unfolding Let_def vars_def k_def r_def avail_def by (intro conjI)
qed

theorem handleGetBulk_spec_witness:
  "buildOIDSnapshot exact_ops 7 test_written = (test_oids, test_values) \<and>
   handleGetBulk test_mem
     (request ''public'' GetBulkRequest 1 3
        [var ''.1.3.6.1.4.1.55555'', var ''.1.3.6.1.4.1.55555.5.1.8''])
     test_values test_oids =
   Inr [gaugePDU ''.1.3.6.1.4.1.55555.1.0'' 2,
        gaugePDU ''.1.3.6.1.4.1.55555.5.1.9'' 320,
        gaugePDU ''.1.3.6.1.4.1.55555.5.1.10'' 150,
        \<lparr>Name = ''.1.3.6.1.4.1.55555.5.1.10'', Type = EndOfMibView, Value = NilValue\<rparr>]"
proof -
  let ?p = "request ''public'' GetBulkRequest 1 3
        [var ''.1.3.6.1.4.1.55555'', var ''.1.3.6.1.4.1.55555.5.1.8'']"
  note t = handleGetBulk_spec[OF test_snapshot, of ?p test_mem, unfolded Let_def]
  have v: "Variables ?p = [var ''.1.3.6.1.4.1.55555'', var ''.1.3.6.1.4.1.55555.5.1.8'']"
    "unat (NonRepeaters ?p) = 1" "unat (MaxRepetitions ?p) = 3"
    by (simp_all add: request_def)
  have "\<exists>replies. handleGetBulk test_mem ?p test_values test_oids = Inr replies"
    using t[THEN conjunct1] unfolding v by (simp add: test_mem_def)
  then obtain replies where r: "handleGetBulk test_mem ?p test_values test_oids = Inr replies"
    by blast
  have a: "replies =
        handleGetNext [var ''.1.3.6.1.4.1.55555''] test_values test_oids @
        bulk_walk 3 ''.1.3.6.1.4.1.55555.5.1.8'' test_values test_oids"
    using t[THEN conjunct2, THEN conjunct1, rule_format, OF r, THEN conjunct1]
    unfolding v by (simp add: var_def test_normal)
  have b: "bulk_walk 3 ''.1.3.6.1.4.1.55555.5.1.8'' test_values test_oids =
         map (map_index test_values)
           (take 3 (greater_oids test_oids ''.1.3.6.1.4.1.55555.5.1.8'')) @
         (if length (greater_oids test_oids ''.1.3.6.1.4.1.55555.5.1.8'') < 3
          then [\<lparr>Name = last (''.1.3.6.1.4.1.55555.5.1.8'' #
                    greater_oids test_oids ''.1.3.6.1.4.1.55555.5.1.8''),
                  Type = EndOfMibView, Value = NilValue\<rparr>]
          else [])"
    using t[THEN conjunct2, THEN conjunct2, THEN conjunct2, THEN conjunct1, rule_format,
            of "''.1.3.6.1.4.1.55555.5.1.8''"]
    unfolding v by simp
  have c: "handleGetNext [var ''.1.3.6.1.4.1.55555''] test_values test_oids =
           [gaugePDU ''.1.3.6.1.4.1.55555.1.0'' 2]"
    by (simp add: var_def test_normal test_next map_index_def test_values_def)
  have d: "bulk_walk 3 ''.1.3.6.1.4.1.55555.5.1.8'' test_values test_oids =
     [gaugePDU ''.1.3.6.1.4.1.55555.5.1.9'' 320,
      gaugePDU ''.1.3.6.1.4.1.55555.5.1.10'' 150,
      \<lparr>Name = ''.1.3.6.1.4.1.55555.5.1.10'', Type = EndOfMibView, Value = NilValue\<rparr>]"
    unfolding b test_greater by (simp add: map_index_def test_values_def)
  from r a c d test_snapshot show ?thesis by simp
qed

text \<open>
  The claim as first stated, that the reply count is fewer than \<open>k + m * r\<close> whenever
  the tree is exhausted, fails: with \<open>k = 0\<close>, one cursor at the last address of the
  table and \<open>r = 1\<close>, the tree is exhausted, the only reply is the marker, and the
  count is \<open>0 + 1 * 1\<close>.
\<close>

theorem handleGetBulk_exhausted_counterexample:
  "buildOIDSnapshot exact_ops 7 test_written = (test_oids, test_values) \<and>
   handleGetBulk test_mem
     (request ''public'' GetBulkRequest 0 1 [var ''.1.3.6.1.4.1.55555.5.1.10''])
     test_values test_oids =
   Inr [\<lparr>Name = ''.1.3.6.1.4.1.55555.5.1.10'', Type = EndOfMibView, Value = NilValue\<rparr>] \<and>
   length [\<lparr>Name = ''.1.3.6.1.4.1.55555.5.1.10'', Type = EndOfMibView, Value = NilValue\<rparr>]
     = 0 + 1 * 1"
proof -
  have "handleGetBulk test_mem
     (request ''public'' GetBulkRequest 0 1 [var ''.1.3.6.1.4.1.55555.5.1.10''])
     test_values test_oids =
   Inr [\<lparr>Name = ''.1.3.6.1.4.1.55555.5.1.10'', Type = EndOfMibView, Value = NilValue\<rparr>]"
    by (simp add: handleGetBulk_def request_def var_def test_normal test_next Let_def
        makeslice_def test_mem_def)
  with test_snapshot show ?thesis by simp
qed

text \<open>
  The faults of the allocation: a request whose \<open>n * r\<close> replies take more than
  \<open>2 ^ 48\<close> bytes, or more than the system gives, gets no reply; the handler dies.
\<close>

lemma makeslice_Some:
  assumes "2 ^ 48 < n * 40 \<or> \<not> mem n"
  shows "makeslice mem (int n) \<noteq> None"
proof -
  have "(2 ^ 48 < n * 40) = (2 ^ 48 < int n * 40)" by simp linarith
  with assms show ?thesis by (auto simp: makeslice_def)
qed

lemma handleGetBulk_fault:
  assumes "n = length (Variables packet)" "r = max 1 (unat (MaxRepetitions packet))"
    "n * r < 2 ^ 63" "2 ^ 48 < n * r * 40 \<or> \<not> mem (n * r)"
  shows "\<exists>f. handleGetBulk mem packet valueMap sortedOIDs = Inl f"
proof -
  have rr: "(if unat (MaxRepetitions packet) \<le> 0 then 1 else unat (MaxRepetitions packet)) = r"
    by (simp add: assms(2) max_def)
  have c: "sint (word_of_nat n * word_of_nat r :: 64 word) = int (n * r)"
    using assms(3) by (rule bulk_capacity)
  from assms(4) have "makeslice mem (int (n * r)) \<noteq> None" by (rule makeslice_Some)
  then obtain f where "makeslice mem (int (n * r)) = Some f" by blast
  then show ?thesis
    unfolding handleGetBulk_def Let_def assms(1)[symmetric] rr c by simp
qed

subsection \<open>Get\<close>

lemma handleGet_length: "length (handleGet vars valueMap) = length vars"
  by (induction vars) (simp_all add: Let_def)

lemma handleGet_nth:
  "i < length vars \<Longrightarrow>
   handleGet vars valueMap ! i =
     (case map_of valueMap (normalizeOID (Name (vars ! i))) of
        Some val \<Rightarrow> val
      | None \<Rightarrow> \<lparr>Name = normalizeOID (Name (vars ! i)), Type = NoSuchObject, Value = NilValue\<rparr>)"
proof (induction vars arbitrary: i)
  case Nil
  then show ?case by simp
next
  case (Cons vb vars)
  then show ?case by (cases i) (auto simp: Let_def split: option.splits)
qed

text \<open>
  C4. A Get request over any table never fails and gives one reply per requested address,
  in request order: the \<open>i\<close>-th reply is the table's value at the \<open>i\<close>-th address (in
  the normal form of \<^verbatim>\<open>normalizeOID\<close>) when the table binds it, and a
  \<open>NoSuchObject\<close> marker at that address when it does not; it is the reply the address
  gets in a request of its own, whatever the other addresses are.
\<close>

theorem handleGet_spec:
  "length (handleGet vars valueMap) = length vars \<and>
   (\<forall>i < length vars.
      (\<forall>val. map_of valueMap (normalizeOID (Name (vars ! i))) = Some val \<longrightarrow>
             handleGet vars valueMap ! i = val) \<and>
      (map_of valueMap (normalizeOID (Name (vars ! i))) = None \<longrightarrow>
         handleGet vars valueMap ! i =
           \<lparr>Name = normalizeOID (Name (vars ! i)), Type = NoSuchObject, Value = NilValue\<rparr>) \<and>
      handleGet vars valueMap ! i = handleGet [vars ! i] valueMap ! 0)"
  by (simp add: handleGet_length handleGet_nth Let_def split: option.splits)

theorem handleGet_spec_witness:
  "length (handleGet [var ''.9'', var ''.1.0''] [(''.1.0'', gaugePDU ''.1.0'' 2)]) = 2 \<and>
   handleGet [var ''.9'', var ''.1.0''] [(''.1.0'', gaugePDU ''.1.0'' 2)] ! 0 =
     \<lparr>Name = ''.9'', Type = NoSuchObject, Value = NilValue\<rparr> \<and>
   handleGet [var ''.9'', var ''.1.0''] [(''.1.0'', gaugePDU ''.1.0'' 2)] ! 1 = gaugePDU ''.1.0'' 2"
proof -
  have n: "normalizeOID ''.9'' = ''.9''" "normalizeOID ''.1.0'' = ''.1.0''"
    by code_simp+
  show ?thesis
    using handleGet_spec [of "[var ''.9'', var ''.1.0'']" "[(''.1.0'', gaugePDU ''.1.0'' 2)]"]
    by (simp add: var_def n)
qed

subsection \<open>Authorization\<close>

text \<open>
  C8. The handler returns without building a response exactly when the version of the
  request is neither 1 nor 2c or its community differs from the configured one: such a
  request gets no reply, and for every other decoded request the handler goes on to
  build a response.
\<close>

theorem handleRequest_drops:
  "(handleRequest F mem uptime s (Some p) = None) =
   ((Version p \<noteq> Version2c \<and> Version p \<noteq> Version1) \<or>
    Community p \<noteq> cfg_Community (config s))"
  by (simp add: handleRequest_def Let_def split: prod.splits)

theorem handleRequest_drops_witness:
  "handleRequest exact_ops test_mem 7 test_store
     (Some (request ''private'' GetRequest 0 0 [])) = None"
  using handleRequest_drops
    [of exact_ops test_mem 7 test_store "request ''private'' GetRequest 0 0 []"]
  by (simp add: request_def test_store_def test_cfg_def)

subsection \<open>The history buffer\<close>

lemma Write_cache:
  assumes "maxSize s = 100" "length (cache s) \<le> 100"
  shows "\<exists>s'. Write F s r = Some s' \<and> maxSize s' = 100 \<and>
           cache s' = (if length (cache s) = 100 then tl (cache s) else cache s) @ [r]"
  using assms by (auto simp: Write_def Let_def drop_Suc)

lemma Writes_cache:
  assumes "maxSize s = 100" "length (cache s) \<le> 100"
  shows "\<exists>s'. Writes F s rs = Some s' \<and> maxSize s' = 100 \<and>
           cache s' = drop (length (cache s) + length rs - 100) (cache s @ rs)"
  using assms
proof (induction rs arbitrary: s)
  case Nil
  then show ?case by simp
next
  case (Cons r rs)
  from Write_cache[OF Cons.prems, of F r] obtain s1 where
    w: "Write F s r = Some s1" and m: "maxSize s1 = 100" and
    c: "cache s1 = (if length (cache s) = 100 then tl (cache s) else cache s) @ [r]"
    by blast
  have l: "length (cache s1) \<le> 100" using c Cons.prems by auto
  from Cons.IH[OF m l] obtain s' where
    ws: "Writes F s1 rs = Some s'" and m': "maxSize s' = 100" and
    c': "cache s' = drop (length (cache s1) + length rs - 100) (cache s1 @ rs)"
    by blast
  have "cache s' = drop (length (cache s) + length (r # rs) - 100) (cache s @ r # rs)"
  proof (cases "length (cache s) = 100")
    case True
    then have "cache s \<noteq> []" by auto
    then have "cache s = hd (cache s) # tl (cache s)" by simp
    then obtain x xs where "cache s = x # xs" by blast
    with True c c' show ?thesis by simp
  next
    case False
    with Cons.prems have "length (cache s) < 100" by simp
    with False c c' show ?thesis by simp
  qed
  with w ws m' show ?case by simp
qed

text \<open>
  C5. From the store \<^verbatim>\<open>NewSNMPOutput\<close> returns, every sequence of writes succeeds, and
  after it the history buffer holds at most 100 records: the last 100 written (all of
  them when fewer), in the order they were written. One more write to a buffer of 100
  drops its first (oldest) record and appends the new one after the others.
\<close>

theorem history_buffer_fifo:
  assumes "NewSNMPOutput cfg = Some s0"
  shows "\<exists>s. Writes F s0 rs = Some s \<and> length (cache s) \<le> 100 \<and> maxSize s = 100 \<and>
           cache s = drop (length rs - 100) rs \<and>
           (\<forall>r. \<exists>s'. Write F s r = Some s' \<and>
                  cache s' = (if length (cache s) = 100 then tl (cache s) else cache s) @ [r])"
proof -
  from assms have init: "maxSize s0 = 100" "cache s0 = []"
    by (auto simp: NewSNMPOutput_def split: if_splits)
  then have "length (cache s0) \<le> 100" by simp
  from Writes_cache[OF init(1) this, of F rs] obtain s where
    s: "Writes F s0 rs = Some s" "maxSize s = 100"
       "cache s = drop (length (cache s0) + length rs - 100) (cache s0 @ rs)"
    by blast
  with init have c: "cache s = drop (length rs - 100) rs" by simp
  then have l: "length (cache s) \<le> 100" by simp
  from Write_cache[OF s(2) l, of F] s(1,2) c l show ?thesis by blast
qed

theorem history_buffer_fifo_witness:
  "NewSNMPOutput test_cfg = Some test_store \<and>
   (\<exists>s. Writes exact_ops test_store (resultSuccess # replicate 100 resultFailure) = Some s \<and>
        cache s = replicate 100 resultFailure)"
proof -
  have h: "NewSNMPOutput test_cfg = Some test_store"
    by (simp add: NewSNMPOutput_def test_cfg_def test_store_def)
  from history_buffer_fifo [OF h, of exact_ops "resultSuccess # replicate 100 resultFailure"]
  show ?thesis using h by auto
qed

subsection \<open>The site index\<close>

lemma update_absent: "k \<notin> fst ` set al \<Longrightarrow> AList.update k v al = al @ [(k, v)]"
  by (induction al) auto

lemma map_of_None_keys: "map_of al k = None \<longleftrightarrow> k \<notin> set (map fst al)"
  by (simp add: map_of_eq_None_iff)

lemma store_inv_init: "NewSNMPOutput cfg = Some s0 \<Longrightarrow> store_inv s0 \<and> siteIndex s0 = [] \<and> stats s0 = [] \<and> config s0 = cfg"
  by (auto simp: NewSNMPOutput_def store_inv_def split: if_splits)

lemma Write_stats:
  assumes "Write F s r = Some s'"
  shows "stats s' = AList.update (site_key r)
           (update_stats F r (case map_of (stats s) (site_key r) of
                                None \<Rightarrow> new_siteStats F (Timings_TotalDurationMs r)
                              | Some st \<Rightarrow> st)) (stats s)"
    and "config s' = config s"
  using assms by (auto simp: Write_def Let_def site_key_def split: if_splits)

lemma Write_siteIndex:
  assumes "Write F s r = Some s'"
  shows "siteIndex s' =
           (if map_of (stats s) (site_key r) = None \<and> map_of (siteIndex s) (site_key r) = None
            then AList.update (site_key r) (nextSiteIndex s + 1) (siteIndex s) else siteIndex s)"
    and "nextSiteIndex s' =
           (if map_of (stats s) (site_key r) = None \<and> map_of (siteIndex s) (site_key r) = None
            then nextSiteIndex s + 1 else nextSiteIndex s)"
  using assms by (auto simp: Write_def Let_def site_key_def split: if_splits)

lemma Write_inv:
  assumes "store_inv s"
  shows "\<exists>s'. Write F s r = Some s' \<and> store_inv s' \<and> config s' = config s \<and>
           map fst (siteIndex s') = first_seen (map fst (siteIndex s)) [site_key r]"
proof -
  from assms have m: "maxSize s = 100" and l: "length (cache s) \<le> 100"
    and k: "map fst (stats s) = map fst (siteIndex s)"
    and d: "distinct (map fst (siteIndex s))"
    and v: "map snd (siteIndex s) = map word_of_nat [1 ..< Suc (length (siteIndex s))]"
    and n: "nextSiteIndex s = word_of_nat (length (siteIndex s))"
    by (auto simp: store_inv_def)
  from Write_cache[OF m l, of F r] obtain s' where
    w: "Write F s r = Some s'" and m': "maxSize s' = 100"
    and c': "cache s' = (if length (cache s) = 100 then tl (cache s) else cache s) @ [r]"
    by blast
  have l': "length (cache s') \<le> 100" using c' l by auto
  note st = Write_stats[OF w] and si = Write_siteIndex[OF w]
  show ?thesis
  proof (cases "site_key r \<in> set (map fst (siteIndex s))")
    case True
    then have "map_of (stats s) (site_key r) \<noteq> None"
      using k by (simp add: map_of_None_keys)
    then have "siteIndex s' = siteIndex s" "nextSiteIndex s' = nextSiteIndex s"
      using si by auto
    moreover have "map fst (stats s') = map fst (stats s)"
      using True k by (simp add: st(1) update_keys)
    ultimately have "store_inv s'"
      using m' l' k d v n by (simp add: store_inv_def)
    with w st(2) True \<open>siteIndex s' = siteIndex s\<close> show ?thesis by simp
  next
    case False
    then have a: "map_of (stats s) (site_key r) = None" "map_of (siteIndex s) (site_key r) = None"
      using k by (simp_all add: map_of_None_keys)
    from False have "site_key r \<notin> fst ` set (siteIndex s)" by simp
    then have si': "siteIndex s' = siteIndex s @ [(site_key r, nextSiteIndex s + 1)]"
      using si(1) a by (simp add: update_absent)
    have ns': "nextSiteIndex s' = nextSiteIndex s + 1" using si(2) a by simp
    have ks': "map fst (stats s') = map fst (stats s) @ [site_key r]"
      using False k by (simp add: st(1) update_keys)
    have "store_inv s'"
      using m' l' k d v n False by (simp add: store_inv_def si' ns' ks')
    with w st(2) False si' show ?thesis by simp
  qed
qed

lemma first_seen_append: "first_seen acc (xs @ ys) = first_seen (first_seen acc xs) ys"
  by (induction xs arbitrary: acc) simp_all

lemma Writes_inv:
  assumes "store_inv s"
  shows "\<exists>s'. Writes F s rs = Some s' \<and> store_inv s' \<and> config s' = config s \<and>
           map fst (siteIndex s') = first_seen (map fst (siteIndex s)) (map site_key rs)"
  using assms
proof (induction rs arbitrary: s)
  case Nil
  then show ?case by simp
next
  case (Cons r rs)
  from Write_inv[OF Cons.prems, of F r] obtain s1 where
    s1: "Write F s r = Some s1" "store_inv s1" "config s1 = config s"
        "map fst (siteIndex s1) = first_seen (map fst (siteIndex s)) [site_key r]"
    by blast
  from Cons.IH[OF s1(2)] obtain s' where
    s': "Writes F s1 rs = Some s'" "store_inv s'" "config s' = config s1"
        "map fst (siteIndex s') = first_seen (map fst (siteIndex s1)) (map site_key rs)"
    by blast
  from s1 s' show ?case by simp
qed

lemma first_seen_props:
  "distinct acc \<Longrightarrow> distinct (first_seen acc ks) \<and> set (first_seen acc ks) = set acc \<union> set ks \<and>
     (\<exists>new. first_seen acc ks = acc @ new)"
proof (induction ks arbitrary: acc)
  case Nil
  then show ?case by simp
next
  case (Cons k ks)
  show ?case
  proof (cases "k \<in> set acc")
    case True
    with Cons show ?thesis by auto
  next
    case False
    with Cons.prems have "distinct (acc @ [k])" by simp
    from Cons.IH[OF this] False show ?thesis by auto
  qed
qed

lemma remdups_drop_dup: "k \<in> set b \<Longrightarrow> remdups (a @ k # b) = remdups (a @ b)"
  by (induction a) auto

lemma first_seen_remdups: "first_seen [] ks = rev (remdups (rev ks))"
proof -
  have "distinct acc \<Longrightarrow> first_seen acc ks = rev (remdups (rev (acc @ ks)))" for acc
  proof (induction ks arbitrary: acc)
    case Nil
    then show ?case by (simp add: distinct_remdups_id)
  next
    case (Cons k ks)
    show ?case
    proof (cases "k \<in> set acc")
      case True
      have "remdups (rev ks @ k # rev acc) = remdups (rev ks @ rev acc)"
        using True by (simp add: remdups_drop_dup)
      with True Cons show ?thesis by simp
    next
      case False
      with Cons.prems have "distinct (acc @ [k])" by simp
      from Cons.IH[OF this] False show ?thesis by simp
    qed
  qed
  from this[of "[]"] show ?thesis by simp
qed

lemma zip_fst_snd: "zip (map fst al) (map snd al) = al"
  by (induction al) auto

lemma map_of_nth_distinct:
  "distinct (map fst al) \<Longrightarrow> i < length al \<Longrightarrow> map_of al (fst (al ! i)) = Some (snd (al ! i))"
  by (simp add: map_of_eq_Some_iff)

lemma store_inv_index:
  assumes "store_inv s" "i < length (siteIndex s)"
  shows "map_of (siteIndex s) (map fst (siteIndex s) ! i) = Some (word_of_nat (i + 1))"
proof -
  from assms(1) have d: "distinct (map fst (siteIndex s))"
    and v: "map snd (siteIndex s) = map word_of_nat [1 ..< Suc (length (siteIndex s))]"
    by (auto simp: store_inv_def)
  have "snd (siteIndex s ! i) = map snd (siteIndex s) ! i" using assms(2) by simp
  also have "\<dots> = word_of_nat (i + 1)"
    unfolding v using assms(2) by (simp del: upt_Suc)
  finally have "snd (siteIndex s ! i) = word_of_nat (i + 1)" .
  with map_of_nth_distinct[OF d assms(2)] assms(2) show ?thesis by simp
qed

lemma word64_of_nat_inj:
  "i < 2 ^ 64 \<Longrightarrow> j < 2 ^ 64 \<Longrightarrow> (word_of_nat i :: 64 word) = word_of_nat j \<Longrightarrow> i = j"
  by (simp add: word_of_nat_eq_iff take_bit_nat_eq_self)

lemma Write_index_stable:
  assumes "Write F s r = Some s'" "map_of (siteIndex s) k = Some i"
  shows "map_of (siteIndex s') k = Some i"
proof (cases "map_of (stats s) (site_key r) = None \<and> map_of (siteIndex s) (site_key r) = None")
  case True
  with assms(2) have "k \<noteq> site_key r" by auto
  with True assms(2) show ?thesis
    by (simp add: Write_siteIndex(1)[OF assms(1)] update_conv')
next
  case False
  then have "siteIndex s' = siteIndex s"
    using Write_siteIndex(1)[OF assms(1)] by (simp only: if_False)
  with assms(2) show ?thesis by simp
qed

lemma Writes_index_stable:
  "Writes F s rs = Some s' \<Longrightarrow> map_of (siteIndex s) k = Some i \<Longrightarrow> map_of (siteIndex s') k = Some i"
proof (induction rs arbitrary: s)
  case Nil
  then show ?case by simp
next
  case (Cons r rs)
  from Cons.prems(1) obtain s1 where s1: "Write F s r = Some s1" "Writes F s1 rs = Some s'"
    by (auto split: option.splits)
  from Write_index_stable[OF s1(1) Cons.prems(2)] Cons.IH[OF s1(2)] show ?case by simp
qed

lemma store_inv_inj:
  assumes "store_inv s" "length (siteIndex s) < 2 ^ 64"
  shows "distinct (map snd (siteIndex s))"
proof -
  from assms(1) have v: "map snd (siteIndex s) = map word_of_nat [1 ..< Suc (length (siteIndex s))]"
    by (simp add: store_inv_def)
  have "inj_on (word_of_nat :: nat \<Rightarrow> 64 word) (set [1 ..< Suc (length (siteIndex s))])"
  proof (rule inj_onI)
    fix i j assume "i \<in> set [1 ..< Suc (length (siteIndex s))]"
      "j \<in> set [1 ..< Suc (length (siteIndex s))]"
      "(word_of_nat i :: 64 word) = word_of_nat j"
    with assms(2) show "i = j" by (intro word64_of_nat_inj) auto
  qed
  then show ?thesis unfolding v by (simp add: distinct_map del: upt_Suc)
qed

lemma distinct_snd_inj:
  "distinct (map snd al) \<Longrightarrow> (a, v) \<in> set al \<Longrightarrow> (b, v) \<in> set al \<Longrightarrow> a = b"
  by (induction al) (auto simp: image_iff)

lemma store_inv_index_inj:
  assumes "store_inv s" "length (siteIndex s) < 2 ^ 64"
    "map_of (siteIndex s) a = Some i" "map_of (siteIndex s) b = Some i"
  shows "a = b"
  using distinct_snd_inj[OF store_inv_inj[OF assms(1,2)]] assms(3,4)
  by (blast dest: map_of_SomeD)

subsection \<open>The aggregates and the addresses of a snapshot\<close>

lemma collect_entries_set:
  "e \<in> set (collect_entries sts si) \<longleftrightarrow>
   (entry_name e, entry_stats e) \<in> set sts \<and> map_of si (entry_name e) = Some (entry_index e)"
proof (induction sts)
  case Nil
  then show ?case by simp
next
  case (Cons a sts)
  obtain name st where a: "a = (name, st)" by (cases a)
  show ?case
  proof (cases "map_of si name")
    case None
    with Cons a show ?thesis by auto
  next
    case (Some idx)
    have "e = \<lparr>entry_name = name, entry_index = idx, entry_stats = st\<rparr> \<longleftrightarrow>
          entry_name e = name \<and> entry_index e = idx \<and> entry_stats e = st"
      by (cases e) auto
    with Cons a Some show ?thesis by auto
  qed
qed

lemma snapshot_entries_set:
  "e \<in> set (snapshot_entries s) \<longleftrightarrow>
   (entry_name e, entry_stats e) \<in> set (stats s) \<and>
   map_of (siteIndex s) (entry_name e) = Some (entry_index e)"
  by (simp add: snapshot_entries_def set_sort_Slice collect_entries_set)

lemma distinct_fst_eq:
  "distinct (map fst al) \<Longrightarrow> (k, v) \<in> set al \<Longrightarrow> (k, w) \<in> set al \<Longrightarrow> v = w"
  by (metis map_of_is_SomeI option.inject)

lemma entries_index_inj:
  assumes "store_inv s" "length (siteIndex s) < 2 ^ 64"
    "e \<in> set (snapshot_entries s)" "e' \<in> set (snapshot_entries s)"
    "entry_index e = entry_index e'"
  shows "e = e'"
proof -
  from assms(3,4) have m: "(entry_name e, entry_stats e) \<in> set (stats s)"
    "map_of (siteIndex s) (entry_name e) = Some (entry_index e)"
    "(entry_name e', entry_stats e') \<in> set (stats s)"
    "map_of (siteIndex s) (entry_name e') = Some (entry_index e')"
    by (simp_all add: snapshot_entries_set)
  from store_inv_index_inj[OF assms(1,2) m(2)] m(4) assms(5)
  have n: "entry_name e = entry_name e'" by simp
  from assms(1) have "distinct (map fst (stats s))" by (simp add: store_inv_def)
  from distinct_fst_eq[OF this m(1)] m(3) n have "entry_stats e = entry_stats e'" by simp
  with n assms(5) show ?thesis by (cases e; cases e') simp
qed

lemma dotted_inj:
  assumes "\<forall>n \<in> set xs. int64_range n" "xs \<noteq> []" "\<forall>n \<in> set ys. int64_range n" "ys \<noteq> []"
    "dotted xs = dotted ys"
  shows "xs = ys"
proof -
  have "xs = oid_key (dotted xs)" by (rule oid_key_dotted[OF assms(1,2), symmetric])
  also have "\<dots> = oid_key (dotted ys)" by (simp only: assms(5))
  also have "\<dots> = ys" by (rule oid_key_dotted[OF assms(3,4)])
  finally show ?thesis .
qed

lemma distinct_leaf_list: "distinct (map fst (leaf_list F siteBase e))"
  by (simp add: leaf_list_def Let_def)

lemma distinct_scalar_list: "distinct (map fst (scalar_list uptime s))"
  by (simp add: scalar_list_def Let_def)

lemma leaf_key_index:
  assumes "k \<in> fst ` set (leaf_list F (base @ ''.5'') e)"
    "k \<in> fst ` set (leaf_list F (base @ ''.5'') e')"
  shows "entry_index e = entry_index e'"
proof -
  let ?js = "[1, 2, 3, 4, 5, 6, 7, 8, 9, 10 :: int]"
  from assms(1) have "k \<in> set (map fst (leaf_list F (base @ ''.5'') e))" by simp
  then obtain j where j: "j \<in> set ?js" "k = base @ dotted [5, sint (entry_index e), j]"
    unfolding leaf_list_keys by auto
  from assms(2) have "k \<in> set (map fst (leaf_list F (base @ ''.5'') e'))" by simp
  then obtain j' where j': "j' \<in> set ?js" "k = base @ dotted [5, sint (entry_index e'), j']"
    unfolding leaf_list_keys by auto
  from j(1) have rj: "int64_range j" by (auto simp: int64_range_small)
  from j'(1) have rj': "int64_range j'" by (auto simp: int64_range_small)
  from j(2) j'(2) have "dotted [5, sint (entry_index e), j] = dotted [5, sint (entry_index e'), j']"
    by simp
  then have "[5, sint (entry_index e), j] = [5, sint (entry_index e'), j']"
    by (intro dotted_inj) (simp_all add: int64_range_small int64_range_sint rj rj')
  then have "sint (entry_index e) = sint (entry_index e')" by simp
  then show ?thesis by (rule signed_word_eqI)
qed

lemma scalar_not_leaf:
  assumes "k \<in> fst ` set (scalar_list uptime s)"
  shows "k \<notin> fst ` set (leaf_list F (snapshot_base s @ ''.5'') e)"
proof
  let ?js = "[1, 2, 3, 4, 5, 6, 7, 8, 9, 10 :: int]"
  assume "k \<in> fst ` set (leaf_list F (snapshot_base s @ ''.5'') e)"
  then have "k \<in> set (map fst (leaf_list F (snapshot_base s @ ''.5'') e))" by simp
  then obtain j where j: "j \<in> set ?js" "k = snapshot_base s @ dotted [5, sint (entry_index e), j]"
    unfolding leaf_list_keys by auto
  from j(1) have rj: "int64_range j" by (auto simp: int64_range_small)
  from assms have "k \<in> set (map fst (scalar_list uptime s))" by simp
  then obtain p where p: "p \<in> set [[1, 0], [2, 0], [3, 0], [4, 0 :: int]]"
    "k = snapshot_base s @ dotted p"
    unfolding scalar_list_keys by auto
  from p(1) have rp: "\<forall>n \<in> set p. int64_range n" "p \<noteq> []" "length p = 2"
    by (auto simp: int64_range_small)
  from j(2) p(2) have "dotted p = dotted [5, sint (entry_index e), j]" by simp
  then have "p = [5, sint (entry_index e), j]"
    using rp(1,2) by (intro dotted_inj) (simp_all add: int64_range_small int64_range_sint rj)
  with rp(3) show False by simp
qed

lemma snapshot_scalar:
  assumes "(k, v) \<in> set (scalar_list uptime s)"
  shows "map_of (snapshot_values F uptime s) k = Some v"
proof -
  from assms have k: "k \<in> fst ` set (scalar_list uptime s)" by force
  have "\<forall>e \<in> set (snapshot_entries s). map_of (leaf_list F (snapshot_base s @ ''.5'') e) k = None"
    using scalar_not_leaf[OF k, of F] by (simp add: map_of_eq_None_iff)
  then have "map_of (snapshot_values F uptime s) k = map_of (scalar_list uptime s) k"
    unfolding map_of_snapshot_values by (rule fold_map_add_none)
  also have "\<dots> = Some v"
    using distinct_scalar_list[of uptime s] assms by (rule map_of_is_SomeI)
  finally show ?thesis .
qed

lemma snapshot_leaf:
  assumes "store_inv s" "length (siteIndex s) < 2 ^ 64"
    "e \<in> set (snapshot_entries s)" "(k, v) \<in> set (leaf_list F (snapshot_base s @ ''.5'') e)"
  shows "map_of (snapshot_values F uptime s) k = Some v"
  unfolding map_of_snapshot_values
proof (rule fold_map_add_some[OF assms(3)])
  show "map_of (leaf_list F (snapshot_base s @ ''.5'') e) k = Some v"
    using distinct_leaf_list assms(4) by (rule map_of_is_SomeI)
  show "\<forall>e' \<in> set (snapshot_entries s). e' \<noteq> e \<longrightarrow>
          map_of (leaf_list F (snapshot_base s @ ''.5'') e') k = None"
  proof (intro ballI impI)
    fix e' assume e': "e' \<in> set (snapshot_entries s)" "e' \<noteq> e"
    show "map_of (leaf_list F (snapshot_base s @ ''.5'') e') k = None"
    proof (rule ccontr)
      assume "map_of (leaf_list F (snapshot_base s @ ''.5'') e') k \<noteq> None"
      then have "k \<in> fst ` set (leaf_list F (snapshot_base s @ ''.5'') e')"
        by (simp add: map_of_eq_None_iff)
      moreover from assms(4) have "k \<in> fst ` set (leaf_list F (snapshot_base s @ ''.5'') e)"
        by force
      ultimately have "entry_index e = entry_index e'" by (rule leaf_key_index[rotated])
      from entries_index_inj[OF assms(1,2,3) e'(1) this] e'(2) show False by simp
    qed
  qed
qed

lemma Write_stats_lookup:
  assumes "Write F s r = Some s'"
  shows "map_of (stats s') k =
           (if k = site_key r then aggregate F (map_of (stats s) k) [r] else map_of (stats s) k)"
  by (simp add: Write_stats(1)[OF assms] update_conv')

lemma Writes_stats_lookup:
  "Writes F s rs = Some s' \<Longrightarrow>
   map_of (stats s') k = aggregate F (map_of (stats s) k) (filter (\<lambda>r. site_key r = k) rs)"
proof (induction rs arbitrary: s)
  case Nil
  then show ?case by simp
next
  case (Cons r rs)
  from Cons.prems obtain s1 where s1: "Write F s r = Some s1" "Writes F s1 rs = Some s'"
    by (auto split: option.splits)
  from Cons.IH[OF s1(2)] Write_stats_lookup[OF s1(1), of k] show ?case by simp
qed

lemma update_stats_fields:
  "TotalTests (update_stats F r st) = TotalTests st + 1"
  "SuccessfulTests (update_stats F r st) =
     (if Status_Success r then SuccessfulTests st + 1 else SuccessfulTests st)"
  "FailedTests (update_stats F r st) =
     (if Status_Success r then FailedTests st else FailedTests st + 1)"
  "LastSuccessTime (update_stats F r st) =
     (if Status_Success r then Timestamp r else LastSuccessTime st)"
  "LastFailureTime (update_stats F r st) =
     (if Status_Success r then LastFailureTime st else Timestamp r)"
  "LastDurationMs (update_stats F r st) = Timings_TotalDurationMs r"
  "MinDurationMs (update_stats F r st) =
     (if sint (Timings_TotalDurationMs r) < sint (MinDurationMs st)
      then Timings_TotalDurationMs r else MinDurationMs st)"
  "MaxDurationMs (update_stats F r st) =
     (if sint (Timings_TotalDurationMs r) > sint (MaxDurationMs st)
      then Timings_TotalDurationMs r else MaxDurationMs st)"
  "AvgDurationMs (update_stats F r st) =
     f_div F (f_add F (f_mul F (AvgDurationMs st) (f_of_int64 F (TotalTests st + 1 - 1)))
                      (f_of_int64 F (Timings_TotalDurationMs r)))
             (f_of_int64 F (TotalTests st + 1))"
  by (simp_all add: update_stats_def Let_def)

lemma aggregate_never:
  assumes "aggregate F cur rk = Some st"
  shows "(\<forall>r \<in> set rk. \<not> Status_Success r) \<longrightarrow>
           LastSuccessTime st = (case cur of None \<Rightarrow> zero_Time | Some c \<Rightarrow> LastSuccessTime c)"
    and "(\<forall>r \<in> set rk. Status_Success r) \<longrightarrow>
           LastFailureTime st = (case cur of None \<Rightarrow> zero_Time | Some c \<Rightarrow> LastFailureTime c)"
  using assms
proof (induction rk arbitrary: cur)
  case Nil
  { case 1 then show ?case by (auto split: option.splits) }
  { case 2 then show ?case by (auto split: option.splits) }
next
  case (Cons r rk)
  { case 1
    from Cons.IH(1)[of "Some (update_stats F r
                (case cur of None \<Rightarrow> new_siteStats F (Timings_TotalDurationMs r)
                 | Some st \<Rightarrow> st))"] 1
    show ?case by (auto simp: update_stats_fields new_siteStats_def split: option.splits) }
  { case 2
    from Cons.IH(2)[of "Some (update_stats F r
                (case cur of None \<Rightarrow> new_siteStats F (Timings_TotalDurationMs r)
                 | Some st \<Rightarrow> st))"] 2
    show ?case by (auto simp: update_stats_fields new_siteStats_def split: option.splits) }
qed

lemma IsZero_iff: "IsZero t \<longleftrightarrow> t = zero_Time"
  by (cases t) (auto simp: IsZero_def zero_Time_def)

lemma ucast_Unix: "(ucast (Unix t) :: 32 word) = word_of_int (unix_sec t)"
  unfolding Unix_def by (rule ucast_down_wi) (simp add: is_down)

lemma leaf_list_unfold:
  "leaf_list F (base @ ''.5'') \<lparr>entry_name = name, entry_index = idx, entry_stats = st\<rparr> =
     (let p = base @ ''.5.'' @ fmt_d (sint idx)
      in [(p @ ''.1'', \<lparr>Name = p @ ''.1'', Type = OctetString, Value = BytesValue name\<rparr>),
          (p @ ''.2'', \<lparr>Name = p @ ''.2'', Type = Counter32,
                        Value = Uint32Value (ucast (TotalTests st))\<rparr>),
          (p @ ''.3'', \<lparr>Name = p @ ''.3'', Type = Counter32,
                        Value = Uint32Value (ucast (SuccessfulTests st))\<rparr>),
          (p @ ''.4'', \<lparr>Name = p @ ''.4'', Type = Counter32,
                        Value = Uint32Value (ucast (FailedTests st))\<rparr>),
          (p @ ''.5'', \<lparr>Name = p @ ''.5'', Type = Gauge32,
                        Value = Uint32Value (if LastSuccessTime st = zero_Time then 0
                                             else word_of_int (unix_sec (LastSuccessTime st)))\<rparr>),
          (p @ ''.6'', \<lparr>Name = p @ ''.6'', Type = Gauge32,
                        Value = Uint32Value (if LastFailureTime st = zero_Time then 0
                                             else word_of_int (unix_sec (LastFailureTime st)))\<rparr>),
          (p @ ''.7'', \<lparr>Name = p @ ''.7'', Type = Gauge32,
                        Value = Uint32Value (ucast (LastDurationMs st))\<rparr>),
          (p @ ''.8'', \<lparr>Name = p @ ''.8'', Type = Gauge32,
                        Value = Uint32Value (f_to_uint32 F (math_Round F (AvgDurationMs st)))\<rparr>),
          (p @ ''.9'', \<lparr>Name = p @ ''.9'', Type = Gauge32,
                        Value = Uint32Value (ucast (MaxDurationMs st))\<rparr>),
          (p @ ''.10'', \<lparr>Name = p @ ''.10'', Type = Gauge32,
                         Value = Uint32Value (ucast (MinDurationMs st))\<rparr>)])"
  by (simp add: leaf_list_def Let_def octetStringPDU_def counterPDU_def gaugePDU_def
      IsZero_iff ucast_Unix)

lemma scalar_list_unfold:
  "scalar_list uptime s =
     (let base = snapshot_base s
      in [(base @ ''.1.0'', \<lparr>Name = base @ ''.1.0'', Type = Gauge32,
                             Value = Uint32Value (word_of_nat (length (cache s)))\<rparr>),
          (base @ ''.2.0'', \<lparr>Name = base @ ''.2.0'', Type = Gauge32,
                             Value = Uint32Value (word_of_int (maxSize s))\<rparr>),
          (base @ ''.3.0'', \<lparr>Name = base @ ''.3.0'', Type = Gauge32,
                             Value = Uint32Value (word_of_nat (length (siteIndex s)))\<rparr>),
          (base @ ''.4.0'', \<lparr>Name = base @ ''.4.0'', Type = TimeTicks,
                             Value = Uint32Value (uptime * 100)\<rparr>)])"
  by (simp add: scalar_list_def Let_def gaugePDU_def timeTicksPDU_def)

lemma leaf_list_suffix_keys:
  "fst ` set (leaf_list F (base @ ''.5'') e) =
   (\<lambda>sfx. base @ ''.5.'' @ fmt_d (sint (entry_index e)) @ sfx) ` set leaf_suffixes"
  by (simp add: leaf_list_def Let_def leaf_suffixes_def)

lemma store_inv_entry_indices:
  assumes "store_inv s"
  shows "entry_index ` set (snapshot_entries s) = snd ` set (siteIndex s)"
proof (intro set_eqI iffI)
  fix i assume "i \<in> entry_index ` set (snapshot_entries s)"
  then obtain e where e: "e \<in> set (snapshot_entries s)" "i = entry_index e" by blast
  then have "map_of (siteIndex s) (entry_name e) = Some i"
    by (simp add: snapshot_entries_set)
  then have "(entry_name e, i) \<in> set (siteIndex s)" by (rule map_of_SomeD)
  then show "i \<in> snd ` set (siteIndex s)" by force
next
  fix i assume "i \<in> snd ` set (siteIndex s)"
  then obtain name where n: "(name, i) \<in> set (siteIndex s)" by auto
  from assms have d: "distinct (map fst (siteIndex s))"
    and k: "map fst (stats s) = map fst (siteIndex s)" by (auto simp: store_inv_def)
  from d n have m: "map_of (siteIndex s) name = Some i" by (rule map_of_is_SomeI)
  from n have "name \<in> set (map fst (siteIndex s))" by force
  with k have "name \<in> fst ` set (stats s)" by (metis set_map)
  then obtain st where "(name, st) \<in> set (stats s)" by auto
  with m have "\<lparr>entry_name = name, entry_index = i, entry_stats = st\<rparr> \<in> set (snapshot_entries s)"
    by (simp add: snapshot_entries_set)
  then show "i \<in> entry_index ` set (snapshot_entries s)" by force
qed

lemma snapshot_key_set:
  assumes "store_inv s"
  shows "fst ` set (snapshot_values F uptime s) =
     {snapshot_base s @ ''.1.0'', snapshot_base s @ ''.2.0'', snapshot_base s @ ''.3.0'',
      snapshot_base s @ ''.4.0''} \<union>
     (\<Union>idx \<in> snd ` set (siteIndex s).
        (\<lambda>sfx. snapshot_base s @ ''.5.'' @ fmt_d (sint idx) @ sfx) ` set leaf_suffixes)"
proof -
  have "fst ` set (snapshot_values F uptime s) = dom (map_of (snapshot_values F uptime s))"
    by (simp add: dom_map_of_conv_image_fst)
  also have "\<dots> = dom (map_of (scalar_list uptime s)) \<union>
      (\<Union>e \<in> set (snapshot_entries s). dom (map_of (leaf_list F (snapshot_base s @ ''.5'') e)))"
    by (simp only: map_of_snapshot_values fold_map_add_dom)
  also have "\<dots> = fst ` set (scalar_list uptime s) \<union>
      (\<Union>e \<in> set (snapshot_entries s). fst ` set (leaf_list F (snapshot_base s @ ''.5'') e))"
    by (simp only: dom_map_of_conv_image_fst)
  also have "fst ` set (scalar_list uptime s) =
     {snapshot_base s @ ''.1.0'', snapshot_base s @ ''.2.0'', snapshot_base s @ ''.3.0'',
      snapshot_base s @ ''.4.0''}"
    by (simp add: scalar_list_def Let_def)
  also have "(\<Union>e \<in> set (snapshot_entries s). fst ` set (leaf_list F (snapshot_base s @ ''.5'') e)) =
     (\<Union>idx \<in> entry_index ` set (snapshot_entries s).
        (\<lambda>sfx. snapshot_base s @ ''.5.'' @ fmt_d (sint idx) @ sfx) ` set leaf_suffixes)"
    unfolding leaf_list_suffix_keys by blast
  finally show ?thesis unfolding store_inv_entry_indices[OF assms] .
qed

lemma reachable_store:
  assumes "NewSNMPOutput cfg = Some s0" "Writes F s0 rs = Some s"
  shows "store_inv s" "config s = cfg"
    "map fst (siteIndex s) = first_seen [] (map site_key rs)"
    "map_of (stats s) k = aggregate F None (filter (\<lambda>r. site_key r = k) rs)"
proof -
  from store_inv_init[OF assms(1)] have i0: "store_inv s0" "siteIndex s0 = []" "stats s0 = []"
    "config s0 = cfg" by auto
  from Writes_inv[OF i0(1), of F rs] assms(2) i0(2,4)
  show "store_inv s" "config s = cfg" "map fst (siteIndex s) = first_seen [] (map site_key rs)"
    by auto
  from Writes_stats_lookup[OF assms(2), of k] i0(3)
  show "map_of (stats s) k = aggregate F None (filter (\<lambda>r. site_key r = k) rs)" by simp
qed

lemma reachable_site_count:
  assumes "NewSNMPOutput cfg = Some s0" "Writes F s0 rs = Some s"
  shows "length (siteIndex s) = card (site_key ` set rs)"
proof -
  have "length (siteIndex s) = length (map fst (siteIndex s))" by simp
  also have "\<dots> = length (first_seen [] (map site_key rs))"
    by (simp only: reachable_store(3)[OF assms])
  also have "\<dots> = card (set (first_seen [] (map site_key rs)))"
  proof -
    have "distinct (first_seen [] (map site_key rs))"
      using first_seen_props[of "[]" "map site_key rs"] by simp
    then show ?thesis by (rule distinct_card[symmetric])
  qed
  also have "\<dots> = card (site_key ` set rs)"
    using first_seen_props[of "[]" "map site_key rs"] by simp
  finally show ?thesis .
qed

lemma snapshot_site_name:
  assumes "store_inv s" "length (siteIndex s) < 2 ^ 64"
    "map_of (stats s) name = Some st" "map_of (siteIndex s) name = Some idx"
  shows "map_of (snapshot_values F uptime s)
           (snapshot_base s @ ''.5.'' @ fmt_d (sint idx) @ ''.1'') =
         Some \<lparr>Name = snapshot_base s @ ''.5.'' @ fmt_d (sint idx) @ ''.1'',
               Type = OctetString, Value = BytesValue name\<rparr>"
proof -
  define e where "e = \<lparr>entry_name = name, entry_index = idx, entry_stats = st\<rparr>"
  from assms(3) have "(name, st) \<in> set (stats s)" by (rule map_of_SomeD)
  with assms(4) have e: "e \<in> set (snapshot_entries s)"
    by (simp add: snapshot_entries_set e_def)
  note lu = leaf_list_unfold[of F "snapshot_base s" name idx st, folded e_def, unfolded Let_def]
  show ?thesis
    by (rule snapshot_leaf[OF assms(1,2) e]) (simp add: lu)
qed

lemma store_inv_index_stats:
  assumes "store_inv s"
  shows "(map_of (siteIndex s) k = None) = (map_of (stats s) k = None)"
  using assms by (simp add: store_inv_def map_of_None_keys)

subsection \<open>The assignment of indices\<close>

lemma test_new: "NewSNMPOutput test_cfg = Some test_store"
  by (simp add: NewSNMPOutput_def test_cfg_def test_store_def)

text \<open>
  C6. From the store \<^verbatim>\<open>NewSNMPOutput\<close> returns, every sequence of writes succeeds. The
  site of a record is its name, or its URL when the name is empty. After the writes the
  index binds exactly the distinct sites written, in the order of their first records:
  the \<open>i\<close>-th distinct site, counted from 1, has index \<open>i\<close>, and the counter is the number
  of sites. The index is a 64-bit integer: read as a signed number it is \<open>i\<close>, hence
  positive, up to \<open>2^63 - 1\<close> sites, and distinct sites have distinct indices below
  \<open>2^64\<close> sites. No later sequence of writes changes the index a site has. Below \<open>2^64\<close>
  sites, a snapshot of the store shows the \<open>i\<close>-th site at its index: the leaf \<open>.5.i.1\<close>
  under the base prefix is the site as text.
\<close>

theorem siteIndex_first_seen:
  assumes "NewSNMPOutput cfg = Some s0"
  shows "\<exists>s. Writes F s0 rs = Some s \<and>
      (let names = first_seen [] (map site_key rs)
       in names = rev (remdups (rev (map site_key rs))) \<and>
          map fst (siteIndex s) = names \<and> distinct names \<and> set names = site_key ` set rs \<and>
          nextSiteIndex s = word_of_nat (length names) \<and>
          (\<forall>i < length names.
             map_of (siteIndex s) (names ! i) = Some (word_of_nat (i + 1)) \<and>
             (i + 1 < 2 ^ 63 \<longrightarrow> sint (word_of_nat (i + 1) :: 64 word) = int (i + 1))) \<and>
          (length names < 2 ^ 64 \<longrightarrow> inj_on (map_of (siteIndex s)) (set names)) \<and>
          (\<forall>rs' s' name idx.
             Writes F s rs' = Some s' \<and> map_of (siteIndex s) name = Some idx \<longrightarrow>
             map_of (siteIndex s') name = Some idx) \<and>
          (length names < 2 ^ 64 \<longrightarrow>
             (\<forall>uptime. \<forall>i < length names.
                map_of (snd (buildOIDSnapshot F uptime s))
                  (snapshot_base s @ ''.5.'' @ fmt_d (sint (word_of_nat (i + 1) :: 64 word)) @ ''.1'') =
                Some \<lparr>Name = snapshot_base s @ ''.5.'' @
                             fmt_d (sint (word_of_nat (i + 1) :: 64 word)) @ ''.1'',
                      Type = OctetString, Value = BytesValue (names ! i)\<rparr>)))"
proof -
  from store_inv_init[OF assms] have i0: "store_inv s0" "siteIndex s0 = []" by auto
  from Writes_inv[OF i0(1), of F rs] i0(2) obtain s where
    s: "Writes F s0 rs = Some s" "store_inv s"
       "map fst (siteIndex s) = first_seen [] (map site_key rs)"
    by auto
  define names where "names = first_seen [] (map site_key rs)"
  have fs: "distinct names" "set names = site_key ` set rs"
    using first_seen_props[of "[]" "map site_key rs"] by (auto simp: names_def)
  have len: "length (siteIndex s) = length names"
    using s(3) names_def by (metis length_map)
  have nx: "nextSiteIndex s = word_of_nat (length names)"
    using s(2) len by (simp add: store_inv_def)
  have idx: "map_of (siteIndex s) (names ! i) = Some (word_of_nat (i + 1))" if "i < length names" for i
    using store_inv_index[OF s(2), of i] that len s(3) names_def by simp
  have inj: "inj_on (map_of (siteIndex s)) (set names)" if "length names < 2 ^ 64"
  proof (rule inj_onI)
    fix a b assume ab: "a \<in> set names" "b \<in> set names"
      "map_of (siteIndex s) a = map_of (siteIndex s) b"
    from ab(1) s(3) names_def have "a \<in> set (map fst (siteIndex s))" by simp
    then have "map_of (siteIndex s) a \<noteq> None" by (simp only: map_of_None_keys not_not)
    then obtain i where i: "map_of (siteIndex s) a = Some i" by blast
    with ab(3) have j: "map_of (siteIndex s) b = Some i" by simp
    have "length (siteIndex s) < 2 ^ 64" using that by (simp only: len)
    from store_inv_index_inj[OF s(2) this i j] show "a = b" .
  qed
  have rd: "names = rev (remdups (rev (map site_key rs)))"
    unfolding names_def by (rule first_seen_remdups)
  have pos: "\<forall>i < length names.
             map_of (siteIndex s) (names ! i) = Some (word_of_nat (i + 1)) \<and>
             (i + 1 < 2 ^ 63 \<longrightarrow> sint (word_of_nat (i + 1) :: 64 word) = int (i + 1))"
    using idx sint_word64_of_nat by blast
  have stab: "\<forall>rs' s' name idx.
             Writes F s rs' = Some s' \<and> map_of (siteIndex s) name = Some idx \<longrightarrow>
             map_of (siteIndex s') name = Some idx"
    using Writes_index_stable[of F s] by blast
  have fst: "map fst (siteIndex s) = names" using s(3) names_def by simp
  have snap: "\<forall>uptime. \<forall>i < length names.
                map_of (snd (buildOIDSnapshot F uptime s))
                  (snapshot_base s @ ''.5.'' @ fmt_d (sint (word_of_nat (i + 1) :: 64 word)) @ ''.1'') =
                Some \<lparr>Name = snapshot_base s @ ''.5.'' @
                             fmt_d (sint (word_of_nat (i + 1) :: 64 word)) @ ''.1'',
                      Type = OctetString, Value = BytesValue (names ! i)\<rparr>"
    if l: "length names < 2 ^ 64"
  proof (intro allI impI)
    fix uptime :: "32 word" and i assume i: "i < length names"
    have l': "length (siteIndex s) < 2 ^ 64" using l by (simp only: len)
    from i fst have "names ! i \<in> set (map fst (siteIndex s))" by simp
    with s(2) have "names ! i \<in> set (map fst (stats s))" by (simp add: store_inv_def)
    then have "map_of (stats s) (names ! i) \<noteq> None" by (simp only: map_of_None_keys not_not)
    then obtain st where st: "map_of (stats s) (names ! i) = Some st" by blast
    have "snd (buildOIDSnapshot F uptime s) = snapshot_values F uptime s"
      by (simp add: buildOIDSnapshot_def Let_def)
    with snapshot_site_name[OF s(2) l' st idx[OF i], of F uptime]
    show "map_of (snd (buildOIDSnapshot F uptime s))
                  (snapshot_base s @ ''.5.'' @ fmt_d (sint (word_of_nat (i + 1) :: 64 word)) @ ''.1'') =
                Some \<lparr>Name = snapshot_base s @ ''.5.'' @
                             fmt_d (sint (word_of_nat (i + 1) :: 64 word)) @ ''.1'',
                      Type = OctetString, Value = BytesValue (names ! i)\<rparr>"
      by simp
  qed
  have "names = rev (remdups (rev (map site_key rs))) \<and>
          map fst (siteIndex s) = names \<and> distinct names \<and> set names = site_key ` set rs \<and>
          nextSiteIndex s = word_of_nat (length names) \<and>
          (\<forall>i < length names.
             map_of (siteIndex s) (names ! i) = Some (word_of_nat (i + 1)) \<and>
             (i + 1 < 2 ^ 63 \<longrightarrow> sint (word_of_nat (i + 1) :: 64 word) = int (i + 1))) \<and>
          (length names < 2 ^ 64 \<longrightarrow> inj_on (map_of (siteIndex s)) (set names)) \<and>
          (\<forall>rs' s' name idx.
             Writes F s rs' = Some s' \<and> map_of (siteIndex s) name = Some idx \<longrightarrow>
             map_of (siteIndex s') name = Some idx) \<and>
          (length names < 2 ^ 64 \<longrightarrow>
             (\<forall>uptime. \<forall>i < length names.
                map_of (snd (buildOIDSnapshot F uptime s))
                  (snapshot_base s @ ''.5.'' @ fmt_d (sint (word_of_nat (i + 1) :: 64 word)) @ ''.1'') =
                Some \<lparr>Name = snapshot_base s @ ''.5.'' @
                             fmt_d (sint (word_of_nat (i + 1) :: 64 word)) @ ''.1'',
                      Type = OctetString, Value = BytesValue (names ! i)\<rparr>))"
    by (intro conjI impI rd fst fs nx pos stab inj snap)
  then have body: "let names = first_seen [] (map site_key rs)
       in names = rev (remdups (rev (map site_key rs))) \<and>
          map fst (siteIndex s) = names \<and> distinct names \<and> set names = site_key ` set rs \<and>
          nextSiteIndex s = word_of_nat (length names) \<and>
          (\<forall>i < length names.
             map_of (siteIndex s) (names ! i) = Some (word_of_nat (i + 1)) \<and>
             (i + 1 < 2 ^ 63 \<longrightarrow> sint (word_of_nat (i + 1) :: 64 word) = int (i + 1))) \<and>
          (length names < 2 ^ 64 \<longrightarrow> inj_on (map_of (siteIndex s)) (set names)) \<and>
          (\<forall>rs' s' name idx.
             Writes F s rs' = Some s' \<and> map_of (siteIndex s) name = Some idx \<longrightarrow>
             map_of (siteIndex s') name = Some idx) \<and>
          (length names < 2 ^ 64 \<longrightarrow>
             (\<forall>uptime. \<forall>i < length names.
                map_of (snd (buildOIDSnapshot F uptime s))
                  (snapshot_base s @ ''.5.'' @ fmt_d (sint (word_of_nat (i + 1) :: 64 word)) @ ''.1'') =
                Some \<lparr>Name = snapshot_base s @ ''.5.'' @
                             fmt_d (sint (word_of_nat (i + 1) :: 64 word)) @ ''.1'',
                      Type = OctetString, Value = BytesValue (names ! i)\<rparr>))"
    unfolding names_def Let_def .
  show ?thesis
    by (rule exI[of _ s], rule conjI, rule s(1), rule body)
qed

theorem siteIndex_first_seen_witness:
  "NewSNMPOutput test_cfg = Some test_store \<and>
   (\<exists>s. Writes exact_ops test_store [resultSuccess, resultOther, resultFailure] = Some s \<and>
        map fst (siteIndex s) = [''example.com'', ''https://example.org''] \<and>
        map_of (siteIndex s) ''example.com'' = Some 1 \<and>
        map_of (siteIndex s) ''https://example.org'' = Some 2 \<and>
        nextSiteIndex s = 2)"
proof -
  let ?rs = "[resultSuccess, resultOther, resultFailure]"
  have n: "first_seen [] (map site_key ?rs) = [''example.com'', ''https://example.org'']"
    by (simp add: site_key_def resultSuccess_def resultOther_def resultFailure_def)
  from siteIndex_first_seen[OF test_new, of exact_ops ?rs] obtain s where
    s: "Writes exact_ops test_store ?rs = Some s \<and>
        (let names = first_seen [] (map site_key ?rs)
       in names = rev (remdups (rev (map site_key ?rs))) \<and>
          map fst (siteIndex s) = names \<and> distinct names \<and> set names = site_key ` set ?rs \<and>
          nextSiteIndex s = word_of_nat (length names) \<and>
          (\<forall>i < length names.
             map_of (siteIndex s) (names ! i) = Some (word_of_nat (i + 1)) \<and>
             (i + 1 < 2 ^ 63 \<longrightarrow> sint (word_of_nat (i + 1) :: 64 word) = int (i + 1))) \<and>
          (length names < 2 ^ 64 \<longrightarrow> inj_on (map_of (siteIndex s)) (set names)) \<and>
          (\<forall>rs' s' name idx.
             Writes exact_ops s rs' = Some s' \<and> map_of (siteIndex s) name = Some idx \<longrightarrow>
             map_of (siteIndex s') name = Some idx) \<and>
          (length names < 2 ^ 64 \<longrightarrow>
             (\<forall>uptime. \<forall>i < length names.
                map_of (snd (buildOIDSnapshot exact_ops uptime s))
                  (snapshot_base s @ ''.5.'' @ fmt_d (sint (word_of_nat (i + 1) :: 64 word)) @ ''.1'') =
                Some \<lparr>Name = snapshot_base s @ ''.5.'' @
                             fmt_d (sint (word_of_nat (i + 1) :: 64 word)) @ ''.1'',
                      Type = OctetString, Value = BytesValue (names ! i)\<rparr>)))" ..
  note b = s[THEN conjunct2, unfolded Let_def n]
  note f = b[THEN conjunct2, THEN conjunct1]
  note x = b[THEN conjunct2, THEN conjunct2, THEN conjunct2, THEN conjunct2, THEN conjunct1]
  note p = b[THEN conjunct2, THEN conjunct2, THEN conjunct2, THEN conjunct2, THEN conjunct2,
             THEN conjunct1, rule_format]
  have p0: "map_of (siteIndex s) ''example.com'' = Some 1"
    using p[of 0, THEN conjunct1] by simp
  have p1: "map_of (siteIndex s) ''https://example.org'' = Some 2"
    using p[of 1, THEN conjunct1] by simp
  have x2: "nextSiteIndex s = 2" using x by simp
  show ?thesis
    by (intro conjI exI[of _ s] test_new s[THEN conjunct1] f p0 p1 x2)
qed

subsection \<open>The layout of a snapshot\<close>

text \<open>
  C9. The snapshot of a store reached by writes from \<^verbatim>\<open>NewSNMPOutput\<close>, with fewer than
  \<open>2^64\<close> sites, under \<open>base\<close>, the normalized configured prefix or \<^verbatim>\<open>.1.3.6.1.4.1.99999\<close>
  when that is \<^verbatim>\<open>.\<close>: \<open>base.1.0\<close> is the length of the history buffer, \<open>base.2.0\<close> the
  capacity 100, \<open>base.3.0\<close> the number of distinct sites, all gauges, and \<open>base.4.0\<close>
  the uptime in seconds times 100 as time ticks, each as an unsigned 32-bit value. The
  sites with an aggregate are the sites written; each has an index \<open>idx\<close> and under
  \<open>base.5.idx\<close> the ten leaves: \<open>.1\<close> the site as text; \<open>.2\<close>, \<open>.3\<close>, \<open>.4\<close> the total,
  successful and failed counts as counters; \<open>.5\<close> and \<open>.6\<close> the unix seconds of the last
  success and failure as gauges, 0 for the zero time, which is what the aggregate holds
  when no record of the site succeeded or failed; \<open>.7\<close> to \<open>.10\<close> the last, the rounded
  average, the greatest and the least duration as gauges. The sorted list holds the
  bound addresses, and these are the four scalars and the ten leaves of each index, no
  other.
\<close>

theorem buildOIDSnapshot_layout:
  assumes "NewSNMPOutput cfg = Some s0" "Writes F s0 rs = Some s"
    and "length (siteIndex s) < 2 ^ 64"
    and "buildOIDSnapshot F uptime s = (sortedOIDs, values)"
  shows "let base = (if normalizeOID (EnterpriseOID cfg) = ''.'' then ''.1.3.6.1.4.1.99999''
                     else normalizeOID (EnterpriseOID cfg))
     in map_of values (base @ ''.1.0'') =
          Some \<lparr>Name = base @ ''.1.0'', Type = Gauge32,
                Value = Uint32Value (word_of_nat (length (cache s)))\<rparr> \<and>
        map_of values (base @ ''.2.0'') =
          Some \<lparr>Name = base @ ''.2.0'', Type = Gauge32, Value = Uint32Value 100\<rparr> \<and>
        map_of values (base @ ''.3.0'') =
          Some \<lparr>Name = base @ ''.3.0'', Type = Gauge32,
                Value = Uint32Value (word_of_nat (card (site_key ` set rs)))\<rparr> \<and>
        map_of values (base @ ''.4.0'') =
          Some \<lparr>Name = base @ ''.4.0'', Type = TimeTicks, Value = Uint32Value (uptime * 100)\<rparr> \<and>
        dom (map_of (stats s)) = site_key ` set rs \<and>
        (\<forall>name st. map_of (stats s) name = Some st \<longrightarrow>
           (\<exists>idx. map_of (siteIndex s) name = Some idx \<and>
              (let p = base @ ''.5.'' @ fmt_d (sint idx)
               in map_of values (p @ ''.1'') =
                    Some \<lparr>Name = p @ ''.1'', Type = OctetString, Value = BytesValue name\<rparr> \<and>
                  map_of values (p @ ''.2'') =
                    Some \<lparr>Name = p @ ''.2'', Type = Counter32,
                          Value = Uint32Value (ucast (TotalTests st))\<rparr> \<and>
                  map_of values (p @ ''.3'') =
                    Some \<lparr>Name = p @ ''.3'', Type = Counter32,
                          Value = Uint32Value (ucast (SuccessfulTests st))\<rparr> \<and>
                  map_of values (p @ ''.4'') =
                    Some \<lparr>Name = p @ ''.4'', Type = Counter32,
                          Value = Uint32Value (ucast (FailedTests st))\<rparr> \<and>
                  map_of values (p @ ''.5'') =
                    Some \<lparr>Name = p @ ''.5'', Type = Gauge32,
                          Value = Uint32Value
                            (if LastSuccessTime st = zero_Time then 0
                             else word_of_int (unix_sec (LastSuccessTime st)))\<rparr> \<and>
                  map_of values (p @ ''.6'') =
                    Some \<lparr>Name = p @ ''.6'', Type = Gauge32,
                          Value = Uint32Value
                            (if LastFailureTime st = zero_Time then 0
                             else word_of_int (unix_sec (LastFailureTime st)))\<rparr> \<and>
                  map_of values (p @ ''.7'') =
                    Some \<lparr>Name = p @ ''.7'', Type = Gauge32,
                          Value = Uint32Value (ucast (LastDurationMs st))\<rparr> \<and>
                  map_of values (p @ ''.8'') =
                    Some \<lparr>Name = p @ ''.8'', Type = Gauge32,
                          Value = Uint32Value
                            (f_to_uint32 F (math_Round F (AvgDurationMs st)))\<rparr> \<and>
                  map_of values (p @ ''.9'') =
                    Some \<lparr>Name = p @ ''.9'', Type = Gauge32,
                          Value = Uint32Value (ucast (MaxDurationMs st))\<rparr> \<and>
                  map_of values (p @ ''.10'') =
                    Some \<lparr>Name = p @ ''.10'', Type = Gauge32,
                          Value = Uint32Value (ucast (MinDurationMs st))\<rparr>) \<and>
              ((\<forall>r \<in> set rs. site_key r = name \<longrightarrow> \<not> Status_Success r) \<longrightarrow>
                 LastSuccessTime st = zero_Time) \<and>
              ((\<forall>r \<in> set rs. site_key r = name \<longrightarrow> Status_Success r) \<longrightarrow>
                 LastFailureTime st = zero_Time))) \<and>
        set sortedOIDs = fst ` set values \<and>
        fst ` set values =
          {base @ ''.1.0'', base @ ''.2.0'', base @ ''.3.0'', base @ ''.4.0''} \<union>
          (\<Union>idx \<in> snd ` set (siteIndex s).
             (\<lambda>sfx. base @ ''.5.'' @ fmt_d (sint idx) @ sfx) `
               {''.1'', ''.2'', ''.3'', ''.4'', ''.5'', ''.6'', ''.7'', ''.8'', ''.9'', ''.10''})"
proof -
  define base where "base = (if normalizeOID (EnterpriseOID cfg) = ''.'' then ''.1.3.6.1.4.1.99999''
                     else normalizeOID (EnterpriseOID cfg))"
  note rs = reachable_store[OF assms(1,2)]
  have b: "snapshot_base s = base"
    by (simp add: snapshot_base_def Let_def rs(2) base_def)
  note srt = snapshot_sorted[OF assms(4)]
  have v: "values = snapshot_values F uptime s" by (rule srt(4))
  have m: "maxSize s = 100" using rs(1) by (simp add: store_inv_def)
  have sc: "map_of values k = Some pdu" if "(k, pdu) \<in> set (scalar_list uptime s)" for k pdu
    unfolding v using that by (rule snapshot_scalar)
  have s1: "map_of values (base @ ''.1.0'') =
          Some \<lparr>Name = base @ ''.1.0'', Type = Gauge32,
                Value = Uint32Value (word_of_nat (length (cache s)))\<rparr>"
    by (rule sc) (simp add: scalar_list_unfold Let_def b)
  have s2: "map_of values (base @ ''.2.0'') =
          Some \<lparr>Name = base @ ''.2.0'', Type = Gauge32, Value = Uint32Value 100\<rparr>"
    by (rule sc) (simp add: scalar_list_unfold Let_def b m)
  have s3: "map_of values (base @ ''.3.0'') =
          Some \<lparr>Name = base @ ''.3.0'', Type = Gauge32,
                Value = Uint32Value (word_of_nat (card (site_key ` set rs)))\<rparr>"
    by (rule sc) (simp add: scalar_list_unfold Let_def b reachable_site_count[OF assms(1,2)])
  have s4: "map_of values (base @ ''.4.0'') =
          Some \<lparr>Name = base @ ''.4.0'', Type = TimeTicks, Value = Uint32Value (uptime * 100)\<rparr>"
    by (rule sc) (simp add: scalar_list_unfold Let_def b)
  have k: "map fst (stats s) = map fst (siteIndex s)" using rs(1) by (simp add: store_inv_def)
  have dm: "dom (map_of (stats s)) = site_key ` set rs"
  proof -
    have "dom (map_of (stats s)) = set (map fst (stats s))"
      by (simp add: dom_map_of_conv_image_fst)
    also have "\<dots> = set (first_seen [] (map site_key rs))" by (simp only: k rs(3))
    also have "\<dots> = site_key ` set rs"
      using first_seen_props[of "[]" "map site_key rs"] by simp
    finally show ?thesis .
  qed
  have site: "\<exists>idx. map_of (siteIndex s) name = Some idx \<and>
              (let p = base @ ''.5.'' @ fmt_d (sint idx)
               in map_of values (p @ ''.1'') =
                    Some \<lparr>Name = p @ ''.1'', Type = OctetString, Value = BytesValue name\<rparr> \<and>
                  map_of values (p @ ''.2'') =
                    Some \<lparr>Name = p @ ''.2'', Type = Counter32,
                          Value = Uint32Value (ucast (TotalTests st))\<rparr> \<and>
                  map_of values (p @ ''.3'') =
                    Some \<lparr>Name = p @ ''.3'', Type = Counter32,
                          Value = Uint32Value (ucast (SuccessfulTests st))\<rparr> \<and>
                  map_of values (p @ ''.4'') =
                    Some \<lparr>Name = p @ ''.4'', Type = Counter32,
                          Value = Uint32Value (ucast (FailedTests st))\<rparr> \<and>
                  map_of values (p @ ''.5'') =
                    Some \<lparr>Name = p @ ''.5'', Type = Gauge32,
                          Value = Uint32Value
                            (if LastSuccessTime st = zero_Time then 0
                             else word_of_int (unix_sec (LastSuccessTime st)))\<rparr> \<and>
                  map_of values (p @ ''.6'') =
                    Some \<lparr>Name = p @ ''.6'', Type = Gauge32,
                          Value = Uint32Value
                            (if LastFailureTime st = zero_Time then 0
                             else word_of_int (unix_sec (LastFailureTime st)))\<rparr> \<and>
                  map_of values (p @ ''.7'') =
                    Some \<lparr>Name = p @ ''.7'', Type = Gauge32,
                          Value = Uint32Value (ucast (LastDurationMs st))\<rparr> \<and>
                  map_of values (p @ ''.8'') =
                    Some \<lparr>Name = p @ ''.8'', Type = Gauge32,
                          Value = Uint32Value
                            (f_to_uint32 F (math_Round F (AvgDurationMs st)))\<rparr> \<and>
                  map_of values (p @ ''.9'') =
                    Some \<lparr>Name = p @ ''.9'', Type = Gauge32,
                          Value = Uint32Value (ucast (MaxDurationMs st))\<rparr> \<and>
                  map_of values (p @ ''.10'') =
                    Some \<lparr>Name = p @ ''.10'', Type = Gauge32,
                          Value = Uint32Value (ucast (MinDurationMs st))\<rparr>) \<and>
              ((\<forall>r \<in> set rs. site_key r = name \<longrightarrow> \<not> Status_Success r) \<longrightarrow>
                 LastSuccessTime st = zero_Time) \<and>
              ((\<forall>r \<in> set rs. site_key r = name \<longrightarrow> Status_Success r) \<longrightarrow>
                 LastFailureTime st = zero_Time)"
    if st: "map_of (stats s) name = Some st" for name st
  proof -
    from st have mem: "(name, st) \<in> set (stats s)" by (rule map_of_SomeD)
    then have "name \<in> set (map fst (stats s))" by force
    then have "map_of (siteIndex s) name \<noteq> None"
      unfolding k by (simp only: map_of_None_keys not_not)
    then obtain idx where idx: "map_of (siteIndex s) name = Some idx" by blast
    define e where "e = \<lparr>entry_name = name, entry_index = idx, entry_stats = st\<rparr>"
    have e: "e \<in> set (snapshot_entries s)"
      using mem idx by (simp add: snapshot_entries_set e_def)
    define p where "p = base @ ''.5.'' @ fmt_d (sint idx)"
    have lf: "map_of values k = Some pdu"
      if "(k, pdu) \<in> set (leaf_list F (base @ ''.5'') e)" for k pdu
      unfolding v using rs(1) assms(3) e that[folded b] by (rule snapshot_leaf)
    note lu = leaf_list_unfold[of F base name idx st, folded e_def p_def, unfolded Let_def]
    have leaves: "map_of values (p @ ''.1'') =
                    Some \<lparr>Name = p @ ''.1'', Type = OctetString, Value = BytesValue name\<rparr> \<and>
                  map_of values (p @ ''.2'') =
                    Some \<lparr>Name = p @ ''.2'', Type = Counter32,
                          Value = Uint32Value (ucast (TotalTests st))\<rparr> \<and>
                  map_of values (p @ ''.3'') =
                    Some \<lparr>Name = p @ ''.3'', Type = Counter32,
                          Value = Uint32Value (ucast (SuccessfulTests st))\<rparr> \<and>
                  map_of values (p @ ''.4'') =
                    Some \<lparr>Name = p @ ''.4'', Type = Counter32,
                          Value = Uint32Value (ucast (FailedTests st))\<rparr> \<and>
                  map_of values (p @ ''.5'') =
                    Some \<lparr>Name = p @ ''.5'', Type = Gauge32,
                          Value = Uint32Value
                            (if LastSuccessTime st = zero_Time then 0
                             else word_of_int (unix_sec (LastSuccessTime st)))\<rparr> \<and>
                  map_of values (p @ ''.6'') =
                    Some \<lparr>Name = p @ ''.6'', Type = Gauge32,
                          Value = Uint32Value
                            (if LastFailureTime st = zero_Time then 0
                             else word_of_int (unix_sec (LastFailureTime st)))\<rparr> \<and>
                  map_of values (p @ ''.7'') =
                    Some \<lparr>Name = p @ ''.7'', Type = Gauge32,
                          Value = Uint32Value (ucast (LastDurationMs st))\<rparr> \<and>
                  map_of values (p @ ''.8'') =
                    Some \<lparr>Name = p @ ''.8'', Type = Gauge32,
                          Value = Uint32Value
                            (f_to_uint32 F (math_Round F (AvgDurationMs st)))\<rparr> \<and>
                  map_of values (p @ ''.9'') =
                    Some \<lparr>Name = p @ ''.9'', Type = Gauge32,
                          Value = Uint32Value (ucast (MaxDurationMs st))\<rparr> \<and>
                  map_of values (p @ ''.10'') =
                    Some \<lparr>Name = p @ ''.10'', Type = Gauge32,
                          Value = Uint32Value (ucast (MinDurationMs st))\<rparr>"
      by (intro conjI; rule lf; simp add: lu)
    have ag: "aggregate F None (filter (\<lambda>r. site_key r = name) rs) = Some st"
      using rs(4)[of name] st by simp
    have ns: "LastSuccessTime st = zero_Time"
      if "\<forall>r \<in> set rs. site_key r = name \<longrightarrow> \<not> Status_Success r"
      using aggregate_never(1)[OF ag] that by simp
    have nf: "LastFailureTime st = zero_Time"
      if "\<forall>r \<in> set rs. site_key r = name \<longrightarrow> Status_Success r"
      using aggregate_never(2)[OF ag] that by simp
    from idx leaves ns nf show ?thesis unfolding Let_def p_def by blast
  qed
  have ks: "fst ` set values =
          {base @ ''.1.0'', base @ ''.2.0'', base @ ''.3.0'', base @ ''.4.0''} \<union>
          (\<Union>idx \<in> snd ` set (siteIndex s).
             (\<lambda>sfx. base @ ''.5.'' @ fmt_d (sint idx) @ sfx) `
               {''.1'', ''.2'', ''.3'', ''.4'', ''.5'', ''.6'', ''.7'', ''.8'', ''.9'', ''.10''})"
    unfolding v snapshot_key_set[OF rs(1)] b by (simp add: leaf_suffixes_def)
  show ?thesis
    unfolding base_def[symmetric] Let_def[of base]
    using s1 s2 s3 s4 dm site srt(2) ks by (intro conjI allI impI) 
qed

theorem buildOIDSnapshot_layout_witness:
  "NewSNMPOutput test_cfg = Some test_store \<and>
   Writes exact_ops test_store [resultSuccess, resultFailure] = Some test_written \<and>
   length (siteIndex test_written) < 2 ^ 64 \<and>
   buildOIDSnapshot exact_ops 7 test_written = (test_oids, test_values) \<and>
   map_of test_values ''.1.3.6.1.4.1.55555.4.0'' =
     Some \<lparr>Name = ''.1.3.6.1.4.1.55555.4.0'', Type = TimeTicks, Value = Uint32Value 700\<rparr>"
proof -
  have l: "length (siteIndex test_written) < 2 ^ 64" by (simp add: test_written_def)
  note t = buildOIDSnapshot_layout[OF test_new test_writes l test_snapshot, unfolded Let_def,
      THEN conjunct2, THEN conjunct2, THEN conjunct2, THEN conjunct1]
  have v: "map_of test_values ''.1.3.6.1.4.1.55555.4.0'' =
     Some \<lparr>Name = ''.1.3.6.1.4.1.55555.4.0'', Type = TimeTicks, Value = Uint32Value 700\<rparr>"
    using t by (simp add: test_cfg_def test_normal(1))
  show ?thesis
    by (intro conjI test_new test_writes l test_snapshot v)
qed

subsection \<open>Records without a site name\<close>

lemma test_write_other:
  "Write exact_ops test_store resultOther =
   Some (test_store\<lparr>cache := [resultOther],
      stats := [(''https://example.org'',
        \<lparr>TotalTests = 1, SuccessfulTests = 1, FailedTests = 0,
         LastSuccessTime = \<lparr>unix_sec = 1700000060, nsec = 0\<rparr>,
         LastFailureTime = zero_Time,
         LastDurationMs = 90, AvgDurationMs = 90, MaxDurationMs = 90, MinDurationMs = 90\<rparr>)],
      siteIndex := [(''https://example.org'', 1)], nextSiteIndex := 1\<rparr>)"
  by (simp add: Write_def Let_def test_store_def resultOther_def
      update_stats_def new_siteStats_def exact_ops_def)

text \<open>
  C10. A write of a record \<open>r\<close> with an empty site name, to a store reached by writes
  from \<^verbatim>\<open>NewSNMPOutput\<close>, succeeds and uses the URL of \<open>r\<close> as the key: the aggregate
  under the URL is the former one, or a new one, updated with \<open>r\<close>; the index of the URL
  is the one it had, or the next one; no other key changes. In every snapshot of the
  store after the write (fewer than \<open>2^64\<close> sites) the leaf \<open>base.5.idx.1\<close> of that index
  is the URL as text. A second record with an empty name and the same URL updates the
  same aggregate and adds no key and no index.
\<close>

theorem empty_name_uses_URL:
  assumes "NewSNMPOutput cfg = Some s0" "Writes F s0 rs = Some s" "Site_Name r = []"
  shows "\<exists>s'. Write F s r = Some s' \<and>
     (let url = Site_URL r;
          st0 = (case map_of (stats s) url of
                   None \<Rightarrow> new_siteStats F (Timings_TotalDurationMs r) | Some st \<Rightarrow> st);
          base = (if normalizeOID (EnterpriseOID cfg) = ''.'' then ''.1.3.6.1.4.1.99999''
                  else normalizeOID (EnterpriseOID cfg))
      in map_of (stats s') url = Some (update_stats F r st0) \<and>
         map_of (siteIndex s') url =
           (case map_of (siteIndex s) url of
              None \<Rightarrow> Some (nextSiteIndex s + 1) | Some idx \<Rightarrow> Some idx) \<and>
         (\<forall>k. k \<noteq> url \<longrightarrow>
            map_of (stats s') k = map_of (stats s) k \<and>
            map_of (siteIndex s') k = map_of (siteIndex s) k) \<and>
         (length (siteIndex s') < 2 ^ 64 \<longrightarrow>
            (\<forall>uptime. \<exists>idx. map_of (siteIndex s') url = Some idx \<and>
               map_of (snd (buildOIDSnapshot F uptime s'))
                 (base @ ''.5.'' @ fmt_d (sint idx) @ ''.1'') =
               Some \<lparr>Name = base @ ''.5.'' @ fmt_d (sint idx) @ ''.1'',
                     Type = OctetString, Value = BytesValue url\<rparr>)) \<and>
         (\<forall>r2. Site_Name r2 = [] \<and> Site_URL r2 = url \<longrightarrow>
            (\<exists>s''. Write F s' r2 = Some s'' \<and>
               map_of (stats s'') url = Some (update_stats F r2 (update_stats F r st0)) \<and>
               map fst (stats s'') = map fst (stats s') \<and>
               siteIndex s'' = siteIndex s')))"
proof -
  define url where "url = Site_URL r"
  define st0 where "st0 = (case map_of (stats s) url of
                   None \<Rightarrow> new_siteStats F (Timings_TotalDurationMs r) | Some st \<Rightarrow> st)"
  define base where "base = (if normalizeOID (EnterpriseOID cfg) = ''.'' then ''.1.3.6.1.4.1.99999''
                  else normalizeOID (EnterpriseOID cfg))"
  have key: "site_key r = url" using assms(3) by (simp add: site_key_def url_def)
  note inv = reachable_store(1,2)[OF assms(1,2)]
  from Write_inv[OF inv(1), of F r] obtain s' where
    w: "Write F s r = Some s'" and inv': "store_inv s'" and cf': "config s' = config s"
    by blast
  have st': "map_of (stats s') url = Some (update_stats F r st0)"
    using Write_stats_lookup[OF w, of url] key by (simp add: st0_def split: option.splits)
  have si': "map_of (siteIndex s') url =
           (case map_of (siteIndex s) url of
              None \<Rightarrow> Some (nextSiteIndex s + 1) | Some idx \<Rightarrow> Some idx)"
    using Write_siteIndex(1)[OF w] store_inv_index_stats[OF inv(1), of url] key
    by (auto simp: update_conv' split: option.splits)
  have oth: "map_of (stats s') k = map_of (stats s) k \<and>
            map_of (siteIndex s') k = map_of (siteIndex s) k" if "k \<noteq> url" for k
    using Write_stats_lookup[OF w, of k] Write_siteIndex(1)[OF w] key that
    by (auto simp: update_conv')
  have b: "snapshot_base s' = base"
    by (simp add: snapshot_base_def Let_def cf' inv(2) base_def)
  have snap: "\<exists>idx. map_of (siteIndex s') url = Some idx \<and>
               map_of (snd (buildOIDSnapshot F uptime s'))
                 (base @ ''.5.'' @ fmt_d (sint idx) @ ''.1'') =
               Some \<lparr>Name = base @ ''.5.'' @ fmt_d (sint idx) @ ''.1'',
                     Type = OctetString, Value = BytesValue url\<rparr>"
    if l: "length (siteIndex s') < 2 ^ 64" for uptime
  proof -
    from si' obtain idx where idx: "map_of (siteIndex s') url = Some idx"
      by (cases "map_of (siteIndex s) url") auto
    have "snd (buildOIDSnapshot F uptime s') = snapshot_values F uptime s'"
      by (simp add: buildOIDSnapshot_def Let_def)
    with snapshot_site_name[OF inv' l st' idx, of F uptime] idx show ?thesis
      unfolding b by simp
  qed
  have two: "\<exists>s''. Write F s' r2 = Some s'' \<and>
               map_of (stats s'') url = Some (update_stats F r2 (update_stats F r st0)) \<and>
               map fst (stats s'') = map fst (stats s') \<and>
               siteIndex s'' = siteIndex s'"
    if r2: "Site_Name r2 = []" "Site_URL r2 = url" for r2
  proof -
    have key2: "site_key r2 = url" using r2 by (simp add: site_key_def)
    from Write_inv[OF inv', of F r2] obtain s'' where w2: "Write F s' r2 = Some s''" by blast
    have a: "map_of (stats s'') url = Some (update_stats F r2 (update_stats F r st0))"
      using Write_stats_lookup[OF w2, of url] key2 st' by simp
    from st' have "url \<in> set (map fst (stats s'))"
      by (metis map_of_None_keys option.distinct(1))
    then have c: "map fst (stats s'') = map fst (stats s')"
      by (simp add: Write_stats(1)[OF w2] key2 update_keys)
    have d: "siteIndex s'' = siteIndex s'"
      using Write_siteIndex(1)[OF w2] key2 st' by simp
    from w2 a c d show ?thesis by blast
  qed
  have body: "map_of (stats s') url = Some (update_stats F r st0) \<and>
         map_of (siteIndex s') url =
           (case map_of (siteIndex s) url of
              None \<Rightarrow> Some (nextSiteIndex s + 1) | Some idx \<Rightarrow> Some idx) \<and>
         (\<forall>k. k \<noteq> url \<longrightarrow>
            map_of (stats s') k = map_of (stats s) k \<and>
            map_of (siteIndex s') k = map_of (siteIndex s) k) \<and>
         (length (siteIndex s') < 2 ^ 64 \<longrightarrow>
            (\<forall>uptime. \<exists>idx. map_of (siteIndex s') url = Some idx \<and>
               map_of (snd (buildOIDSnapshot F uptime s'))
                 (base @ ''.5.'' @ fmt_d (sint idx) @ ''.1'') =
               Some \<lparr>Name = base @ ''.5.'' @ fmt_d (sint idx) @ ''.1'',
                     Type = OctetString, Value = BytesValue url\<rparr>)) \<and>
         (\<forall>r2. Site_Name r2 = [] \<and> Site_URL r2 = url \<longrightarrow>
            (\<exists>s''. Write F s' r2 = Some s'' \<and>
               map_of (stats s'') url = Some (update_stats F r2 (update_stats F r st0)) \<and>
               map fst (stats s'') = map fst (stats s') \<and>
               siteIndex s'' = siteIndex s'))"
    using st' si' oth snap two by (intro conjI allI impI) blast+
  show ?thesis
    by (rule exI[of _ s'], rule conjI, rule w)
       (use body in \<open>unfold Let_def url_def st0_def base_def\<close>, assumption)
qed

theorem empty_name_uses_URL_witness:
  "NewSNMPOutput test_cfg = Some test_store \<and> Site_Name resultOther = [] \<and>
   (\<exists>s'. Write exact_ops test_store resultOther = Some s' \<and>
      map_of (siteIndex s') ''https://example.org'' = Some 1 \<and>
      map_of (snd (buildOIDSnapshot exact_ops 7 s')) ''.1.3.6.1.4.1.55555.5.1.1'' =
        Some \<lparr>Name = ''.1.3.6.1.4.1.55555.5.1.1'', Type = OctetString,
              Value = BytesValue ''https://example.org''\<rparr>)"
proof -
  have e: "Site_Name resultOther = []" by (simp add: resultOther_def)
  have u: "Site_URL resultOther = ''https://example.org''" by (simp add: resultOther_def)
  have w0: "Writes exact_ops test_store [] = Some test_store" by simp
  have b: "(if normalizeOID (EnterpriseOID test_cfg) = ''.'' then ''.1.3.6.1.4.1.99999''
            else normalizeOID (EnterpriseOID test_cfg)) = ''.1.3.6.1.4.1.55555''"
    by (simp add: test_cfg_def test_normal(1))
  from empty_name_uses_URL[OF test_new w0 e, unfolded Let_def u b]
  show ?thesis
  proof (elim exE conjE, goal_cases)
    case (1 s')
    have i: "map_of (siteIndex s') ''https://example.org'' = Some 1"
      using 1(3) by (simp add: test_store_def)
    have l: "length (siteIndex s') < 2 ^ 64"
      using 1(1) by (auto simp: test_write_other)
    from 1(5)[rule_format, OF l, of 7] i
    have v: "map_of (snd (buildOIDSnapshot exact_ops 7 s')) ''.1.3.6.1.4.1.55555.5.1.1'' =
        Some \<lparr>Name = ''.1.3.6.1.4.1.55555.5.1.1'', Type = OctetString,
              Value = BytesValue ''https://example.org''\<rparr>"
      by (auto simp: fmt_d_small)
    show ?case
      by (intro conjI exI[of _ s'] test_new e 1(1) i v)
  qed
qed

subsection \<open>The running average\<close>








end
